theory Spec2Isabelle
  imports Main "HOL-Library.Char_ord" "HOL-Library.List_Lexorder" "HOL-Library.Sublist"
begin

section \<open>Text primitives of the Python runtime\<close>

text \<open>
  A Python \<^verbatim>\<open>str\<close> is modelled as a \<^typ>\<open>string\<close>: the list of its code points, restricted
  to the code points below 256. The two predicates below are the restrictions of
  \<^verbatim>\<open>str.isspace\<close> and of the line boundaries of \<^verbatim>\<open>str.splitlines\<close> to that range.
\<close>

definition is_space :: "char \<Rightarrow> bool" where
  "is_space c = ((of_char c :: nat) \<in> {9, 10, 11, 12, 13, 28, 29, 30, 31, 32, 133, 160})"

definition is_linebreak :: "char \<Rightarrow> bool" where
  "is_linebreak c = ((of_char c :: nat) \<in> {10, 11, 12, 13, 28, 29, 30, 133})"

definition strip :: "string \<Rightarrow> string" where
  "strip s = rev (dropWhile is_space (rev (dropWhile is_space s)))"

text \<open>
  \<^verbatim>\<open>str.splitlines()\<close>: the text is cut at every line boundary, \<^verbatim>\<open>\r\n\<close> counting as one
  boundary, the boundaries are dropped, and a text that ends with a boundary has no empty
  last line. The first argument holds the characters of the current line, latest first.
\<close>

fun splitlines_from :: "string \<Rightarrow> string \<Rightarrow> string list" where
  "splitlines_from cur [] = (if cur = [] then [] else [rev cur])"
| "splitlines_from cur (c # cs) =
     (if c = CHR 0x0D then
        (case cs of
           [] \<Rightarrow> [rev cur]
         | d # ds \<Rightarrow> if d = CHR 0x0A then rev cur # splitlines_from [] ds
                    else rev cur # splitlines_from [] (d # ds))
      else if is_linebreak c then rev cur # splitlines_from [] cs
      else splitlines_from (c # cur) cs)"

definition splitlines :: "string \<Rightarrow> string list" where
  "splitlines s = splitlines_from [] s"

section \<open>The regular-expression library as a parameter\<close>

text \<open>
  The exceptions that occur in the modelled code. \<open>ReError\<close> is \<^verbatim>\<open>re.error\<close>;
  \<^verbatim>\<open>OverflowError\<close> and \<^verbatim>\<open>RecursionError\<close> are what \<^verbatim>\<open>re.compile\<close> raises besides it (a
  repeat count beyond the limit, a pattern nested too deep); \<^verbatim>\<open>KeyError\<close> and \<^verbatim>\<open>IndexError\<close>
  come from lookups, \<^verbatim>\<open>RuntimeError\<close> is raised by the oracle-driven parser. An exception
  is the left summand of a result; a handler is a case distinction on it.
\<close>

datatype py_error = ReError | OverflowError | RecursionError | KeyError | IndexError | RuntimeError

text \<open>
  The repository calls Python's \<^verbatim>\<open>re\<close> module, which is not part of it. The program is
  therefore modelled over an arbitrary engine: \<open>re_compile\<close> is \<^verbatim>\<open>re.compile\<close>, which returns
  a compiled pattern or raises, and \<open>rx_match\<close> tells whether the \<^verbatim>\<open>match\<close> method of a
  compiled pattern returns a match object for a \<^verbatim>\<open>str\<close>. \<^verbatim>\<open>re.match(regex, line)\<close> compiles
  (through the module's cache) and then matches. What \<^verbatim>\<open>re.compile\<close> does is taken to depend
  on the pattern string alone.
\<close>

record 'rx re_engine =
  re_compile :: "string \<Rightarrow> py_error + 'rx"
  rx_match :: "'rx \<Rightarrow> string \<Rightarrow> bool"

definition re_match :: "'rx re_engine \<Rightarrow> string \<Rightarrow> string \<Rightarrow> py_error + bool" where
  "re_match E regex line =
     (case re_compile E regex of Inl e \<Rightarrow> Inl e | Inr r \<Rightarrow> Inr (rx_match E r line))"

section \<open>Patterns (log\_patterns.py)\<close>

record LogPattern =
  pattern_id :: nat
  regex :: string
  utility_name :: string
  is_error :: bool
  need_reviewing :: bool

text \<open>
  \<^verbatim>\<open>LogPattern.matches\<close>: the body is one \<^verbatim>\<open>try\<close> whose handler turns \<^verbatim>\<open>re.error\<close> into
  \<^verbatim>\<open>False\<close>; any other exception of \<^verbatim>\<open>re.match\<close> leaves the method.
\<close>

definition matches :: "'rx re_engine \<Rightarrow> LogPattern \<Rightarrow> string \<Rightarrow> py_error + bool" where
  "matches E p line =
     (case re_match E (regex p) line of
        Inr b \<Rightarrow> Inr b
      | Inl e \<Rightarrow> if e = ReError then Inr False else Inl e)"

section \<open>The pattern store (log\_patterns.py, LogPatternStore)\<close>

text \<open>
  The store is one SQLite table whose primary key \<^verbatim>\<open>id\<close> is the row id. It is modelled as
  the list of its rows in row-id order, which is the order in which \<^verbatim>\<open>SELECT *\<close> scans the
  table. An insertion without an id takes the largest id in use plus one (1 in an empty
  table) and so lands at the end.
\<close>

type_synonym pattern_store = "LogPattern list"

definition next_id :: "pattern_store \<Rightarrow> nat" where
  "next_id rows = fold max (map pattern_id rows) 0 + 1"

definition add_pattern :: "pattern_store \<Rightarrow> string \<Rightarrow> string \<Rightarrow> bool \<Rightarrow> bool \<Rightarrow> pattern_store \<times> nat" where
  "add_pattern rows r u e n =
     (rows @ [\<lparr>pattern_id = next_id rows, regex = r, utility_name = u,
               is_error = e, need_reviewing = n\<rparr>], next_id rows)"

definition get_all_patterns :: "pattern_store \<Rightarrow> LogPattern list" where
  "get_all_patterns rows = rows"

definition delete_pattern :: "pattern_store \<Rightarrow> nat \<Rightarrow> pattern_store \<times> bool" where
  "delete_pattern rows i =
     (filter (\<lambda>p. pattern_id p \<noteq> i) rows, \<exists>p \<in> set rows. pattern_id p = i)"

section \<open>Line classification (add\_pattern.py, interactive\_parser.py)\<close>

datatype warning = InvalidPatternWarning string

text \<open>
  \<^verbatim>\<open>parse_line\<close>: the loop returns the first pattern whose \<open>matches\<close> is true. Its handler
  for \<^verbatim>\<open>re.error\<close> prints a warning naming the regex and lets the loop go on; any other
  exception leaves the function. The printed warnings are returned with the result.
\<close>

fun parse_line ::
  "'rx re_engine \<Rightarrow> string \<Rightarrow> LogPattern list \<Rightarrow> py_error + (LogPattern option \<times> warning list)" where
  "parse_line E line [] = Inr (None, [])"
| "parse_line E line (p # ps) =
     (case matches E p line of
        Inr True \<Rightarrow> Inr (Some p, [])
      | Inr False \<Rightarrow> parse_line E line ps
      | Inl e \<Rightarrow>
          if e = ReError then
            (case parse_line E line ps of
               Inl e' \<Rightarrow> Inl e'
             | Inr (r, out) \<Rightarrow> Inr (r, InvalidPatternWarning (regex p) # out))
          else Inl e)"

text \<open>
  The same search as written inline in \<^verbatim>\<open>LLMParser.process_unprocessed_log\<close>: the pair
  \<^verbatim>\<open>(matched, matching_pattern)\<close> is \<open>Some p\<close> or \<open>None\<close>; the handler for \<^verbatim>\<open>re.error\<close> only
  continues.
\<close>

fun find_matching ::
  "'rx re_engine \<Rightarrow> string \<Rightarrow> LogPattern list \<Rightarrow> py_error + LogPattern option" where
  "find_matching E line [] = Inr None"
| "find_matching E line (p # ps) =
     (case matches E p line of
        Inr True \<Rightarrow> Inr (Some p)
      | Inr False \<Rightarrow> find_matching E line ps
      | Inl e \<Rightarrow> if e = ReError then find_matching E line ps else Inl e)"

section \<open>Utility index and embedding (embeddings.py)\<close>

text \<open>
  The dictionary \<^verbatim>\<open>utility_patterns\<close> keeps its keys in insertion order; it is an association
  list with distinct keys. \<open>dict_append\<close> is the loop body of \<^verbatim>\<open>_initialize_mappings\<close>: a new
  key gets an empty list first, then the pair is appended to the key's list.
\<close>

type_synonym groups = "(string \<times> (string \<times> bool) list) list"

fun dict_append :: "string \<Rightarrow> string \<times> bool \<Rightarrow> groups \<Rightarrow> groups" where
  "dict_append k v [] = [(k, [v])]"
| "dict_append k v ((k', vs) # g) =
     (if k' = k then (k', vs @ [v]) # g else (k', vs) # dict_append k v g)"

definition group_patterns :: "LogPattern list \<Rightarrow> groups" where
  "group_patterns patterns =
     foldl (\<lambda>g p. dict_append (utility_name p) (regex p, is_error p) g) [] patterns"

record EmbeddingGenerator =
  utility_mapping :: "(string \<times> nat) list"
  patterns_by_utility :: groups

text \<open>
  \<^verbatim>\<open>sorted\<close> compares Python strings code point by code point, a proper prefix first: the
  lexicographic order of \<^typ>\<open>string\<close>. \<^verbatim>\<open>enumerate\<close> numbers the sorted names from 0.
\<close>

definition initialize_mappings :: "LogPattern list \<Rightarrow> EmbeddingGenerator" where
  "initialize_mappings patterns =
     (let utility_patterns = group_patterns patterns;
          names = sort (map fst utility_patterns)
      in \<lparr>utility_mapping = zip names [0..<length names],
          patterns_by_utility = utility_patterns\<rparr>)"

definition dimension :: "EmbeddingGenerator \<Rightarrow> nat" where
  "dimension g = length (utility_mapping g)"

definition utility_names :: "EmbeddingGenerator \<Rightarrow> string list" where
  "utility_names g = map fst (sort_key snd (utility_mapping g))"

text \<open>
  The embedding is a numpy array of floats that only ever receives \<^verbatim>\<open>+= 1\<close>; below
  \<open>2 ^ 53\<close> these counts are exact, and they are modelled as integers.

  The innermost loop of \<^verbatim>\<open>generate_embedding\<close>: the patterns of one utility, in order. A match
  increments the coordinate when the pattern is an error pattern and ends the loop either
  way; \<^verbatim>\<open>re.error\<close> and a failed match go on to the next pattern; any other exception of
  \<^verbatim>\<open>re.match\<close> is not handled and ends \<^verbatim>\<open>generate_embedding\<close>.
\<close>

fun pattern_loop ::
  "'rx re_engine \<Rightarrow> string \<Rightarrow> nat \<Rightarrow> (string \<times> bool) list \<Rightarrow> int list \<Rightarrow> py_error + int list" where
  "pattern_loop E line idx [] emb = Inr emb"
| "pattern_loop E line idx ((rgx, err) # rest) emb =
     (case re_match E rgx line of
        Inr True \<Rightarrow>
          (if err then
             (if idx < length emb then Inr (emb[idx := emb ! idx + 1]) else Inl IndexError)
           else Inr emb)
      | Inr False \<Rightarrow> pattern_loop E line idx rest emb
      | Inl e \<Rightarrow> if e = ReError then pattern_loop E line idx rest emb else Inl e)"

text \<open>The loop over the items of \<^verbatim>\<open>_patterns_by_utility\<close>, for one line.\<close>

fun utility_loop ::
  "'rx re_engine \<Rightarrow> (string \<times> nat) list \<Rightarrow> string \<Rightarrow> groups \<Rightarrow> int list \<Rightarrow> py_error + int list" where
  "utility_loop E mapping line [] emb = Inr emb"
| "utility_loop E mapping line ((name, pats) # rest) emb =
     (case map_of mapping name of
        None \<Rightarrow> Inl KeyError
      | Some idx \<Rightarrow>
          (case pattern_loop E line idx pats emb of
             Inl e \<Rightarrow> Inl e
           | Inr emb' \<Rightarrow> utility_loop E mapping line rest emb'))"

text \<open>The loop over the lines; a line that is empty after \<^verbatim>\<open>strip()\<close> is skipped.\<close>

fun line_loop ::
  "'rx re_engine \<Rightarrow> EmbeddingGenerator \<Rightarrow> string list \<Rightarrow> int list \<Rightarrow> py_error + int list" where
  "line_loop E g [] emb = Inr emb"
| "line_loop E g (line # rest) emb =
     (if strip line = [] then line_loop E g rest emb
      else
        (case utility_loop E (utility_mapping g) line (patterns_by_utility g) emb of
           Inl e \<Rightarrow> Inl e
         | Inr emb' \<Rightarrow> line_loop E g rest emb'))"

definition generate_embedding ::
  "'rx re_engine \<Rightarrow> EmbeddingGenerator \<Rightarrow> string \<Rightarrow> py_error + int list" where
  "generate_embedding E g log_content =
     line_loop E g (splitlines log_content) (replicate (dimension g) 0)"

section \<open>The oracle-driven parser (llm\_parser.py)\<close>

text \<open>
  What \<^verbatim>\<open>ask_llm\<close> and \<^verbatim>\<open>json.loads\<close> can produce for one query: the request fails
  (\<^verbatim>\<open>ask_llm\<close> raises \<^verbatim>\<open>RuntimeError\<close>), the answer is not JSON, or it is a JSON object whose
  fields \<^verbatim>\<open>regex\<close> and \<^verbatim>\<open>utility_name\<close> are strings when present. Answers of other JSON
  types are outside the model.
\<close>

datatype llm_response =
    AskFailed
  | InvalidJSON
  | JSONObject "string option" "string option"

datatype message = InvalidRegexMessage | NoMatchMessage | ErrorAnalyzingMessage

text \<open>
  The handlers of the \<^verbatim>\<open>try\<close> in \<^verbatim>\<open>analyze_line_with_llm\<close>, for an exception raised by the
  library calls in it: \<^verbatim>\<open>KeyError\<close> is raised again as \<^verbatim>\<open>RuntimeError\<close>, \<^verbatim>\<open>re.error\<close> and
  every other exception print a message and return \<^verbatim>\<open>None\<close>.
\<close>

definition analysis_handlers ::
  "py_error \<Rightarrow> py_error + (message list \<times> (string \<times> string \<times> bool) option)" where
  "analysis_handlers e =
     (if e = KeyError then Inl RuntimeError
      else if e = ReError then Inr ([InvalidRegexMessage], None)
      else Inr ([ErrorAnalyzingMessage], None))"

text \<open>
  \<^verbatim>\<open>analyze_line_with_llm\<close>, after the response has been obtained. \<open>Inl RuntimeError\<close> is the
  exception raised by the handlers of \<^verbatim>\<open>JSONDecodeError\<close> and \<^verbatim>\<open>KeyError\<close>; otherwise the
  result is the printed message together with the returned tuple (\<open>None\<close> for Python's
  \<^verbatim>\<open>None\<close>). The error flag of a returned tuple is the literal \<^verbatim>\<open>False\<close>.
\<close>

definition analyze_line_with_llm ::
  "'rx re_engine \<Rightarrow> llm_response \<Rightarrow> string \<Rightarrow>
     py_error + (message list \<times> (string \<times> string \<times> bool) option)" where
  "analyze_line_with_llm E response line =
     (case response of
        AskFailed \<Rightarrow> Inr ([ErrorAnalyzingMessage], None)
      | InvalidJSON \<Rightarrow> Inl RuntimeError
      | JSONObject regex_field utility_field \<Rightarrow>
          (case regex_field of
             None \<Rightarrow> Inl RuntimeError
           | Some rgx \<Rightarrow>
               (case re_compile E rgx of
                  Inl e \<Rightarrow> analysis_handlers e
                | Inr r \<Rightarrow>
                    (case re_match E rgx line of
                       Inl e \<Rightarrow> analysis_handlers e
                     | Inr False \<Rightarrow> Inr ([NoMatchMessage], None)
                     | Inr True \<Rightarrow>
                         (case utility_field of
                            None \<Rightarrow> Inl RuntimeError
                          | Some u \<Rightarrow> Inr ([], Some (rgx, u, False)))))))"

record LLMParser =
  pattern_store :: pattern_store
  patterns_cache :: "LogPattern list option"

text \<open>The property \<^verbatim>\<open>patterns\<close>: the cache is filled from the store on first use.\<close>

definition patterns :: "LLMParser \<Rightarrow> LogPattern list \<times> LLMParser" where
  "patterns self =
     (case patterns_cache self of
        None \<Rightarrow>
          (let ps = get_all_patterns (pattern_store self)
           in (ps, self\<lparr>patterns_cache := Some ps\<rparr>))
      | Some ps \<Rightarrow> (ps, self))"

definition update_patterns :: "LLMParser \<Rightarrow> string \<Rightarrow> string \<Rightarrow> bool \<Rightarrow> LLMParser \<times> nat" where
  "update_patterns self rgx u e =
     (let (store', pid) = add_pattern (pattern_store self) rgx u e True;
          new_pattern = \<lparr>pattern_id = pid, regex = rgx, utility_name = u,
                          is_error = e, need_reviewing = True\<rparr>
      in (self\<lparr>pattern_store := store',
               patterns_cache := map_option (\<lambda>c. c @ [new_pattern]) (patterns_cache self)\<rparr>,
          pid))"

text \<open>What the loop of \<^verbatim>\<open>process_unprocessed_log\<close> prints for one line.\<close>

datatype report =
    MatchedExisting LogPattern
  | AddedPattern nat string string bool
  | SkippedDuplicate
  | FailedToCreate

text \<open>The pattern id a report shows (\<^verbatim>\<open>Pattern ID: ...\<close> is printed for an added pattern only).\<close>

fun report_id :: "report \<Rightarrow> nat option" where
  "report_id (AddedPattern pid u rgx e) = Some pid"
| "report_id (MatchedExisting p) = None"
| "report_id SkippedDuplicate = None"
| "report_id FailedToCreate = None"

record run_state =
  parser :: LLMParser
  new_patterns :: "string set"
  llm_queries :: nat
  reports :: "report list"

text \<open>
  The branch \<^verbatim>\<open>if result:\<close> of the loop body: a regex not yet in \<^verbatim>\<open>new_patterns\<close> is recorded
  and written to store and cache; one already there is only reported as a duplicate.
\<close>

definition ingest :: "run_state \<Rightarrow> string \<times> string \<times> bool \<Rightarrow> run_state" where
  "ingest st result =
     (case result of (rgx, utility, err) \<Rightarrow>
        if rgx \<notin> new_patterns st then
          (let (self', pid) = update_patterns (parser st) rgx utility err
           in st\<lparr>parser := self', new_patterns := insert rgx (new_patterns st),
                 reports := reports st @ [AddedPattern pid utility rgx err]\<rparr>)
        else st\<lparr>reports := reports st @ [SkippedDuplicate]\<rparr>)"

text \<open>
  The loop body for one non-blank line. The oracle is a function of the query number
  (\<^verbatim>\<open>llm_queries\<close>) and the line. An exception leaves the loop; the state reached so far is
  returned with it, since earlier store writes are committed.
\<close>

definition process_line ::
  "'rx re_engine \<Rightarrow> (nat \<Rightarrow> string \<Rightarrow> llm_response) \<Rightarrow> run_state \<Rightarrow> string \<Rightarrow>
     run_state \<times> py_error option" where
  "process_line E llm st line =
     (let (ps, self1) = patterns (parser st); st1 = st\<lparr>parser := self1\<rparr>
      in case find_matching E line ps of
           Inl err \<Rightarrow> (st1, Some err)
         | Inr (Some p) \<Rightarrow> (st1\<lparr>reports := reports st1 @ [MatchedExisting p]\<rparr>, None)
         | Inr None \<Rightarrow>
             (let st2 = st1\<lparr>llm_queries := llm_queries st1 + 1\<rparr>
              in case analyze_line_with_llm E (llm (llm_queries st2) line) line of
                   Inl err \<Rightarrow> (st2, Some err)
                 | Inr (msgs, None) \<Rightarrow> (st2\<lparr>reports := reports st2 @ [FailedToCreate]\<rparr>, None)
                 | Inr (msgs, Some result) \<Rightarrow> (ingest st2 result, None)))"

text \<open>
  The loop over \<^verbatim>\<open>enumerate(log.log.splitlines(), 1)\<close>. After every tenth line that was
  not blank the user may quit (\<open>quit n\<close>: the answer at line \<open>n\<close> is \<^verbatim>\<open>q\<close>).
\<close>

fun lines_loop ::
  "'rx re_engine \<Rightarrow> (nat \<Rightarrow> string \<Rightarrow> llm_response) \<Rightarrow> (nat \<Rightarrow> bool) \<Rightarrow> nat \<Rightarrow> string list \<Rightarrow>
     run_state \<Rightarrow> run_state \<times> py_error option" where
  "lines_loop E llm quit line_num [] st = (st, None)"
| "lines_loop E llm quit line_num (line # rest) st =
     (if strip line = [] then lines_loop E llm quit (line_num + 1) rest st
      else
        (case process_line E llm st line of
           (st', Some err) \<Rightarrow> (st', Some err)
         | (st', None) \<Rightarrow>
             if line_num mod 10 = 0 \<and> quit line_num then (st', None)
             else lines_loop E llm quit (line_num + 1) rest st'))"

text \<open>
  The local variables of \<^verbatim>\<open>process_unprocessed_log\<close> when its loop starts: no regex has been
  proposed, no query made, nothing printed.
\<close>

definition session_start :: "LLMParser \<Rightarrow> run_state" where
  "session_start self = \<lparr>parser = self, new_patterns = {}, llm_queries = 0, reports = []\<rparr>"

text \<open>
  \<^verbatim>\<open>process_unprocessed_log\<close>: \<open>log\<close> is the text of the log the storage hands out, if any.
  The result is \<^verbatim>\<open>False\<close> without a log, \<^verbatim>\<open>True\<close> after a processed one, or the
  exception that ended the loop. The log storage itself is not modelled.
\<close>

definition process_unprocessed_log ::
  "'rx re_engine \<Rightarrow> (nat \<Rightarrow> string \<Rightarrow> llm_response) \<Rightarrow> (nat \<Rightarrow> bool) \<Rightarrow> string option \<Rightarrow>
     LLMParser \<Rightarrow> LLMParser \<times> (py_error + bool)" where
  "process_unprocessed_log E llm quit log self =
     (case log of
        None \<Rightarrow> (self, Inr False)
      | Some content \<Rightarrow>
          (case lines_loop E llm quit 1 (splitlines content) (session_start self) of
             (st, Some err) \<Rightarrow> (parser st, Inl err)
           | (st, None) \<Rightarrow> (parser st, Inr True)))"

section \<open>Interactive pattern entry (add\_pattern.py)\<close>

text \<open>
  The string operations of \<^verbatim>\<open>validate_regex\<close>: the test \<^verbatim>\<open>'\\[' in pattern\<close>, the replacement
  of \<^verbatim>\<open>[\<close> and \<^verbatim>\<open>]\<close> by their escaped forms, the replacement of two backslashes by one
  (occurrences are taken from the left and do not overlap), and \<^verbatim>\<open>re.escape\<close>, which puts a
  backslash before each of its special characters.
\<close>

fun has_escaped_bracket :: "string \<Rightarrow> bool" where
  "has_escaped_bracket (a # b # cs) =
     ((a = CHR 0x5C \<and> b = CHR ''['') \<or> has_escaped_bracket (b # cs))"
| "has_escaped_bracket cs = False"

definition escape_brackets :: "string \<Rightarrow> string" where
  "escape_brackets s =
     concat (map (\<lambda>c. if c = CHR ''['' \<or> c = CHR '']'' then [CHR 0x5C, c] else [c]) s)"

fun halve_backslashes :: "string \<Rightarrow> string" where
  "halve_backslashes (a # b # cs) =
     (if a = CHR 0x5C \<and> b = CHR 0x5C then CHR 0x5C # halve_backslashes cs
      else a # halve_backslashes (b # cs))"
| "halve_backslashes cs = cs"

definition re_special :: "char \<Rightarrow> bool" where
  "re_special c =
     (c \<in> set (''()[]{}?*+-|^$.&~# '' @ [CHR 0x5C, CHR 0x09, CHR 0x0A, CHR 0x0D, CHR 0x0B, CHR 0x0C]))"

definition re_escape :: "string \<Rightarrow> string" where
  "re_escape s = concat (map (\<lambda>c. if re_special c then [CHR 0x5C, c] else [c]) s)"

text \<open>
  After a failed match \<^verbatim>\<open>validate_regex\<close> prints hints. Each hint compiles a variant of the
  pattern inside its own \<^verbatim>\<open>try\<close> that passes over \<^verbatim>\<open>re.error\<close>; what is printed does not change
  the result and is left out, but another exception of such a compilation leaves
  \<^verbatim>\<open>validate_regex\<close>. \<open>hints\<close> is that exception, if any.
\<close>

definition hint_attempt :: "'rx re_engine \<Rightarrow> string \<Rightarrow> py_error option" where
  "hint_attempt E pat =
     (case re_compile E pat of
        Inl e \<Rightarrow> if e = ReError then None else Some e
      | Inr r \<Rightarrow> None)"

definition hints :: "'rx re_engine \<Rightarrow> string \<Rightarrow> string \<Rightarrow> py_error option" where
  "hints E pattern line =
     (case (if CHR ''['' \<in> set line \<and> \<not> has_escaped_bracket pattern
            then hint_attempt E (escape_brackets pattern) else None) of
        Some e \<Rightarrow> Some e
      | None \<Rightarrow>
          (case (if pattern \<noteq> [] \<and> hd pattern = CHR ''^'' \<and> last pattern = CHR ''$''
                 then hint_attempt E (halve_backslashes pattern) else None) of
             Some e \<Rightarrow> Some e
           | None \<Rightarrow> hint_attempt E ([CHR ''^''] @ re_escape line @ [CHR ''$''])))"

text \<open>
  \<^verbatim>\<open>validate_regex\<close>: the result and the diagnostic printed first. The handler of the outer
  \<^verbatim>\<open>try\<close> catches \<^verbatim>\<open>re.error\<close> only.
\<close>

definition validate_regex ::
  "'rx re_engine \<Rightarrow> string \<Rightarrow> string \<Rightarrow> py_error + (bool \<times> message list)" where
  "validate_regex E pattern line =
     (case re_compile E pattern of
        Inl e \<Rightarrow> if e = ReError then Inr (False, [InvalidRegexMessage]) else Inl e
      | Inr compiled \<Rightarrow>
          if rx_match E compiled line then Inr (True, [])
          else (case hints E pattern line of
                  Some e \<Rightarrow> Inl e
                | None \<Rightarrow> Inr (False, [NoMatchMessage])))"

definition lower_char :: "char \<Rightarrow> char" where
  "lower_char c =
     (let n = (of_char c :: nat)
      in if (65 \<le> n \<and> n \<le> 90) \<or> (192 \<le> n \<and> n \<le> 222 \<and> n \<noteq> 215)
         then char_of (n + 32) else c)"

definition lower :: "string \<Rightarrow> string" where
  "lower s = map lower_char s"

text \<open>
  The loops of \<^verbatim>\<open>main\<close> read the terminal. The answers still to come are a list; \<open>None\<close>
  is the end of the input, which ends the program, and \<open>Inl\<close> an exception that \<^verbatim>\<open>main\<close>
  does not handle. \<open>regex_loop\<close> is the inner \<^verbatim>\<open>while True\<close> that asks for the regex: it is
  left by \<^verbatim>\<open>break\<close> when the regex validates and when the user chooses 3, with the variable
  \<^verbatim>\<open>regex\<close> as last entered.
\<close>

fun regex_loop ::
  "'rx re_engine \<Rightarrow> string \<Rightarrow> string list \<Rightarrow> py_error + (string \<times> string list) option" where
  "regex_loop E line [] = Inr None"
| "regex_loop E line (a # rest) =
     (if strip a = [] then regex_loop E line rest
      else
        (case validate_regex E (strip a) line of
           Inl e \<Rightarrow> Inl e
         | Inr v \<Rightarrow>
             if fst v then Inr (Some (strip a, rest))
             else
               (case rest of
                  [] \<Rightarrow> Inr None
                | c # rest' \<Rightarrow>
                    if strip c = ''2'' then regex_loop E line rest'
                    else if strip c = ''3'' then Inr (Some (strip a, rest'))
                    else regex_loop E line rest')))"

fun error_loop :: "string list \<Rightarrow> (string \<times> string list) option" where
  "error_loop [] = None"
| "error_loop (a # rest) =
     (if lower (strip a) = ''y'' \<or> lower (strip a) = ''n'' then Some (lower (strip a), rest)
      else error_loop rest)"

text \<open>
  One round of the outer \<^verbatim>\<open>while True\<close> of \<^verbatim>\<open>main\<close>, from the prompt for a log line to the
  \<^verbatim>\<open>continue\<close> or the end of the body: the store and the answers left.
\<close>

definition main_iteration ::
  "'rx re_engine \<Rightarrow> pattern_store \<Rightarrow> string list \<Rightarrow>
     py_error + (pattern_store \<times> string list) option" where
  "main_iteration E store inputs =
     (case inputs of
        [] \<Rightarrow> Inr None
      | l # in1 \<Rightarrow>
          if strip l = [] then Inr (Some (store, in1))
          else
            (case parse_line E (strip l) (get_all_patterns store) of
               Inl e \<Rightarrow> Inl e
             | Inr found \<Rightarrow>
                 (case fst found of
                    Some p \<Rightarrow>
                      (case in1 of
                         [] \<Rightarrow> Inr None
                       | action # in2 \<Rightarrow>
                           if strip (lower action) = ''d''
                           then Inr (Some (fst (delete_pattern store (pattern_id p)), in2))
                           else Inr (Some (store, in2)))
                  | None \<Rightarrow>
                      (case in1 of
                         [] \<Rightarrow> Inr None
                       | answer # in2 \<Rightarrow>
                           if lower answer \<noteq> ''y'' then Inr (Some (store, in2))
                           else
                             (case regex_loop E (strip l) in2 of
                                Inl e \<Rightarrow> Inl e
                              | Inr None \<Rightarrow> Inr None
                              | Inr (Some (rgx, in3)) \<Rightarrow>
                                  if rgx = [] then Inr (Some (store, in3))
                                  else
                                    (case in3 of
                                       [] \<Rightarrow> Inr None
                                     | u # in4 \<Rightarrow>
                                         if strip u = [] then Inr (Some (store, in4))
                                         else
                                           (case error_loop in4 of
                                              None \<Rightarrow> Inr None
                                            | Some (error_str, in5) \<Rightarrow>
                                                Inr (Some (fst (add_pattern store rgx (strip u)
                                                             (error_str = ''y'') True), in5)))))))))"

section \<open>A model of the regex library on the fragment the patterns use\<close>

text \<open>
  Compiled patterns. \<open>Cls neg rs\<close> is a character category given by code point ranges,
  negated when \<open>neg\<close> holds; \<open>Bol\<close> and \<open>Eol\<close> are the anchors \<^verbatim>\<open>^\<close> and \<^verbatim>\<open>$\<close>.
\<close>

datatype rx =
    Lit char
  | Dot
  | Cls bool "(char \<times> char) list"
  | Bol
  | Eol
  | Eps
  | Seq rx rx
  | Alt rx rx
  | Star rx

text \<open>
  The categories \<^verbatim>\<open>\d\<close>, \<^verbatim>\<open>\s\<close> and \<^verbatim>\<open>\w\<close> of a \<^verbatim>\<open>str\<close> pattern, for code points
  below 256.
\<close>

definition in_ranges :: "char \<Rightarrow> (char \<times> char) list \<Rightarrow> bool" where
  "in_ranges c rs = (\<exists>(lo, hi) \<in> set rs. lo \<le> c \<and> c \<le> hi)"

definition digit_ranges :: "(char \<times> char) list" where
  "digit_ranges = [(CHR ''0'', CHR ''9'')]"

definition space_ranges :: "(char \<times> char) list" where
  "space_ranges = [(CHR 0x09, CHR 0x0D), (CHR 0x1C, CHR 0x20), (CHR 0x85, CHR 0x85), (CHR 0xA0, CHR 0xA0)]"

definition word_ranges :: "(char \<times> char) list" where
  "word_ranges = [(CHR ''0'', CHR ''9''), (CHR ''A'', CHR ''Z''), (CHR ''_'', CHR ''_''),
     (CHR ''a'', CHR ''z''), (CHR 0xAA, CHR 0xAA), (CHR 0xB2, CHR 0xB3), (CHR 0xB5, CHR 0xB5),
     (CHR 0xB9, CHR 0xBA), (CHR 0xBC, CHR 0xBE), (CHR 0xC0, CHR 0xD6), (CHR 0xD8, CHR 0xF6),
     (CHR 0xF8, CHR 0xFF)]"

text \<open>
  Matching works on suffixes of the line: \<open>ends r n t\<close> lists the suffixes that can remain
  after \<open>r\<close> has matched at the front of \<open>t\<close>, where \<open>n\<close> is the length of the whole line
  (so \<open>length t = n\<close> is the start of the line). \<^verbatim>\<open>.\<close> takes any character but a newline;
  \<^verbatim>\<open>^\<close> holds at the start only (no \<^verbatim>\<open>MULTILINE\<close>); \<^verbatim>\<open>$\<close> holds at the end and before a
  final newline. For a star, \<open>star_ends\<close> closes the list under one more iteration; every
  round with something new adds a shorter suffix, so \<open>length t\<close> rounds are enough.
\<close>

fun star_ends :: "nat \<Rightarrow> (string \<Rightarrow> string list) \<Rightarrow> string list \<Rightarrow> string list \<Rightarrow> string list" where
  "star_ends 0 step front acc = acc"
| "star_ends (Suc k) step front acc =
     (let new = filter (\<lambda>u. u \<notin> set acc) (remdups (concat (map step front)))
      in if new = [] then acc else star_ends k step new (acc @ new))"

primrec ends :: "rx \<Rightarrow> nat \<Rightarrow> string \<Rightarrow> string list" where
  "ends (Lit c) n t = (case t of [] \<Rightarrow> [] | x # xs \<Rightarrow> if x = c then [xs] else [])"
| "ends Dot n t = (case t of [] \<Rightarrow> [] | x # xs \<Rightarrow> if x \<noteq> CHR 0x0A then [xs] else [])"
| "ends (Cls neg rs) n t =
     (case t of [] \<Rightarrow> [] | x # xs \<Rightarrow> if in_ranges x rs \<noteq> neg then [xs] else [])"
| "ends Bol n t = (if length t = n then [t] else [])"
| "ends Eol n t = (if t = [] \<or> t = [CHR 0x0A] then [t] else [])"
| "ends Eps n t = [t]"
| "ends (Seq a b) n t = remdups (concat (map (ends b n) (ends a n t)))"
| "ends (Alt a b) n t = remdups (ends a n t @ ends b n t)"
| "ends (Star a) n t = star_ends (length t) (ends a n) [t] [t]"

text \<open>
  The \<^verbatim>\<open>match\<close> method: a match must start at the first character of the line and may end
  anywhere.
\<close>

definition py_rx_match :: "rx \<Rightarrow> string \<Rightarrow> bool" where
  "py_rx_match r line = (ends r (length line) line \<noteq> [])"

text \<open>
  The parser covers the fragment of the pattern syntax that the patterns of this
  repository use: literals, \<^verbatim>\<open>.\<close>, \<^verbatim>\<open>^\<close>, \<^verbatim>\<open>$\<close>, groups, \<^verbatim>\<open>|\<close>, the quantifiers
  \<^verbatim>\<open>*\<close>, \<^verbatim>\<open>+\<close>, \<^verbatim>\<open>?\<close> and \<^verbatim>\<open>{m,n}\<close>, the categories and escaped characters. \<open>CompileError\<close>
  is \<^verbatim>\<open>re.error\<close> and \<open>Overflow\<close> is \<^verbatim>\<open>OverflowError\<close>, raised for a repeat count of
  \<open>4294967295\<close> (\<^verbatim>\<open>MAXREPEAT\<close>) or more as soon as the closing brace has been read.
  \<open>Unsupported\<close> is returned for syntax outside the fragment (character sets, \<^verbatim>\<open>(?...)\<close>,
  back references, \<^verbatim>\<open>\b\<close>, lazy and possessive quantifiers, other repeat counts of more than
  three digits, groups nested deeper than 50); nothing is claimed about such patterns.

  A frame holds the finished alternatives of the group being read and the items of the
  current alternative, latest first; an item remembers whether it is an anchor or already
  quantified, which is what the checks "nothing to repeat" and "multiple repeat" need.
\<close>

datatype 'a compiled = Compiled 'a | CompileError | Overflow | Unsupported

datatype item_kind = Plain | Anchor | Repeated

type_synonym branch = "(item_kind \<times> rx) list"
type_synonym frame = "rx list \<times> branch"

definition mk_seq :: "branch \<Rightarrow> rx" where
  "mk_seq items = (case rev (map snd items) of [] \<Rightarrow> Eps | r # rs \<Rightarrow> foldl Seq r rs)"

definition close_frame :: "frame \<Rightarrow> rx" where
  "close_frame f = (case rev (mk_seq (snd f) # fst f) of [] \<Rightarrow> Eps | r # rs \<Rightarrow> foldl Alt r rs)"

definition push_item :: "item_kind \<Rightarrow> rx \<Rightarrow> frame \<Rightarrow> frame" where
  "push_item k r f = (fst f, (k, r) # snd f)"

fun seq_n :: "nat \<Rightarrow> rx \<Rightarrow> rx \<Rightarrow> rx" where
  "seq_n 0 r tail = tail"
| "seq_n (Suc m) r tail = Seq r (seq_n m r tail)"

fun opt_n :: "nat \<Rightarrow> rx \<Rightarrow> rx" where
  "opt_n 0 r = Eps"
| "opt_n (Suc m) r = Alt (Seq r (opt_n m r)) Eps"

definition repeat_rx :: "nat \<Rightarrow> nat option \<Rightarrow> rx \<Rightarrow> rx" where
  "repeat_rx lo hi r =
     (case hi of None \<Rightarrow> seq_n lo r (Star r) | Some h \<Rightarrow> seq_n lo r (opt_n (h - lo) r))"

definition quantify :: "nat \<Rightarrow> nat option \<Rightarrow> frame \<Rightarrow> frame compiled" where
  "quantify lo hi f =
     (case snd f of
        [] \<Rightarrow> CompileError
      | (k, r) # items \<Rightarrow>
          (case k of
             Anchor \<Rightarrow> CompileError
           | Repeated \<Rightarrow> CompileError
           | Plain \<Rightarrow> Compiled (fst f, (Repeated, repeat_rx lo hi r) # items)))"

definition is_digit :: "char \<Rightarrow> bool" where
  "is_digit c = (CHR ''0'' \<le> c \<and> c \<le> CHR ''9'')"

definition is_ascii_letter :: "char \<Rightarrow> bool" where
  "is_ascii_letter c = ((CHR ''a'' \<le> c \<and> c \<le> CHR ''z'') \<or> (CHR ''A'' \<le> c \<and> c \<le> CHR ''Z''))"

definition digits_value :: "string \<Rightarrow> nat" where
  "digits_value ds = foldl (\<lambda>n c. 10 * n + (of_char c - 48)) 0 ds"

definition too_large :: "string \<Rightarrow> bool" where
  "too_large ds = (4294967295 \<le> foldl (\<lambda>n c. 10 * n + (of_char c - 48)) (0 :: int) ds)"

text \<open>
  The text after \<^verbatim>\<open>{\<close>: digits, then either \<^verbatim>\<open>}\<close> or a comma, digits and \<^verbatim>\<open>}\<close>; the
  result holds the two digit strings and the number of characters read. Anything else, and
  \<^verbatim>\<open>{}\<close>, makes the brace a literal character.
\<close>

definition brace_spec :: "string \<Rightarrow> (string \<times> string \<times> nat) option" where
  "brace_spec cs =
     (let lo = takeWhile is_digit cs; r1 = dropWhile is_digit cs
      in case r1 of
           [] \<Rightarrow> None
         | c # r2 \<Rightarrow>
             if c = CHR '','' then
               (let hi = takeWhile is_digit r2; r3 = dropWhile is_digit r2
                in case r3 of
                     [] \<Rightarrow> None
                   | d # r4 \<Rightarrow>
                       if d = CHR ''}'' then Some (lo, hi, length lo + length hi + 2) else None)
             else if c = CHR ''}'' then Some (lo, lo, length lo + 1)
             else None)"

definition escape_item :: "char \<Rightarrow> (item_kind \<times> rx) compiled" where
  "escape_item c =
     (if is_digit c then Unsupported
      else if c = CHR ''d'' then Compiled (Plain, Cls False digit_ranges)
      else if c = CHR ''D'' then Compiled (Plain, Cls True digit_ranges)
      else if c = CHR ''s'' then Compiled (Plain, Cls False space_ranges)
      else if c = CHR ''S'' then Compiled (Plain, Cls True space_ranges)
      else if c = CHR ''w'' then Compiled (Plain, Cls False word_ranges)
      else if c = CHR ''W'' then Compiled (Plain, Cls True word_ranges)
      else if c = CHR ''a'' then Compiled (Plain, Lit (CHR 0x07))
      else if c = CHR ''f'' then Compiled (Plain, Lit (CHR 0x0C))
      else if c = CHR ''n'' then Compiled (Plain, Lit (CHR 0x0A))
      else if c = CHR ''r'' then Compiled (Plain, Lit (CHR 0x0D))
      else if c = CHR ''t'' then Compiled (Plain, Lit (CHR 0x09))
      else if c = CHR ''v'' then Compiled (Plain, Lit (CHR 0x0B))
      else if c \<in> set ''bBAZxuUN'' then Unsupported
      else if is_ascii_letter c then CompileError
      else Compiled (Plain, Lit c))"

function parse :: "frame list \<Rightarrow> frame \<Rightarrow> string \<Rightarrow> rx compiled" where
  "parse stack f [] = (if stack = [] then Compiled (close_frame f) else CompileError)"
| "parse stack f (c # cs) =
     (if c = CHR 0x5C then
        (case cs of
           [] \<Rightarrow> CompileError
         | e # rest \<Rightarrow>
             (case escape_item e of
                Compiled (k, r) \<Rightarrow> parse stack (push_item k r f) rest
              | CompileError \<Rightarrow> CompileError
              | Overflow \<Rightarrow> Overflow
              | Unsupported \<Rightarrow> Unsupported))
      else if c = CHR ''['' then Unsupported
      else if c = CHR ''('' then
        (case cs of
           [] \<Rightarrow> CompileError
         | e # rest \<Rightarrow>
             if e = CHR ''?'' \<or> 50 \<le> length stack then Unsupported
             else parse (f # stack) ([], []) cs)
      else if c = CHR '')'' then
        (case stack of
           [] \<Rightarrow> CompileError
         | outer # stack' \<Rightarrow> parse stack' (push_item Plain (close_frame f) outer) cs)
      else if c = CHR ''|'' then parse stack (mk_seq (snd f) # fst f, []) cs
      else if c = CHR ''.'' then parse stack (push_item Plain Dot f) cs
      else if c = CHR ''^'' then parse stack (push_item Anchor Bol f) cs
      else if c = CHR ''$'' then parse stack (push_item Anchor Eol f) cs
      else if c = CHR ''*'' \<or> c = CHR ''+'' \<or> c = CHR ''?'' then
        (if (case snd f of (Repeated, r) # items \<Rightarrow> c \<noteq> CHR ''*'' | _ \<Rightarrow> False) then Unsupported
         else
           (case quantify (if c = CHR ''+'' then 1 else 0) (if c = CHR ''?'' then Some 1 else None) f of
              Compiled f' \<Rightarrow> parse stack f' cs
            | CompileError \<Rightarrow> CompileError
            | Overflow \<Rightarrow> Overflow
            | Unsupported \<Rightarrow> Unsupported))
      else if c = CHR ''{'' then
        (case brace_spec cs of
           None \<Rightarrow> parse stack (push_item Plain (Lit c) f) cs
         | Some (lo, hi, n) \<Rightarrow>
             if n = 1 then parse stack (push_item Plain (Lit c) f) cs
             else if too_large lo \<or> too_large hi then
               (if drop n cs = [CHR 0x5C] then CompileError else Overflow)
             else if 3 < length lo \<or> 3 < length hi then Unsupported
             else if hi \<noteq> [] \<and> digits_value hi < digits_value lo then CompileError
             else
               (case quantify (digits_value lo) (if hi = [] then None else Some (digits_value hi)) f of
                  Compiled f' \<Rightarrow> parse stack f' (drop n cs)
                | CompileError \<Rightarrow> CompileError
                | Overflow \<Rightarrow> Overflow
                | Unsupported \<Rightarrow> Unsupported))
      else parse stack (push_item Plain (Lit c) f) cs)"
  by pat_completeness auto
termination
  by (relation "measure (\<lambda>(stack, f, s). length s)") auto

definition py_compile :: "string \<Rightarrow> rx compiled" where
  "py_compile s = parse [] ([], []) s"

text \<open>
  The engines that follow this model on the fragment. A compiled pattern is its match
  predicate. On a pattern outside the fragment the engine does what the parameter \<open>other\<close>
  says, so a statement proved of \<open>py_re other\<close> for every \<open>other\<close> holds of every engine that
  agrees with the model inside the fragment, whatever it does outside. \<open>no_other\<close> is the
  parameter used in closed examples, all of whose patterns are inside the fragment.
\<close>

definition py_re :: "(string \<Rightarrow> py_error + (string \<Rightarrow> bool)) \<Rightarrow> (string \<Rightarrow> bool) re_engine" where
  "py_re other =
     \<lparr>re_compile = (\<lambda>s. case py_compile s of
                           Compiled r \<Rightarrow> Inr (py_rx_match r)
                         | CompileError \<Rightarrow> Inl ReError
                         | Overflow \<Rightarrow> Inl OverflowError
                         | Unsupported \<Rightarrow> other s),
      rx_match = (\<lambda>m line. m line)\<rparr>"

definition no_other :: "string \<Rightarrow> py_error + (string \<Rightarrow> bool)" where
  "no_other s = Inl ReError"

text \<open>
  Whether a compiled pattern contains the anchor \<^verbatim>\<open>$\<close>; one round of a star as a relation
  on suffixes; a parser frame none of whose parts contains the anchor.
\<close>

primrec has_eol :: "rx \<Rightarrow> bool" where
  "has_eol (Lit c) = False"
| "has_eol Dot = False"
| "has_eol (Cls neg rs) = False"
| "has_eol Bol = False"
| "has_eol Eol = True"
| "has_eol Eps = False"
| "has_eol (Seq a b) = (has_eol a \<or> has_eol b)"
| "has_eol (Alt a b) = (has_eol a \<or> has_eol b)"
| "has_eol (Star a) = has_eol a"

definition step_rel :: "(string \<Rightarrow> string list) \<Rightarrow> string \<Rightarrow> string \<Rightarrow> bool" where
  "step_rel step w v = (v \<in> set (step w))"

definition frame_no_eol :: "frame \<Rightarrow> bool" where
  "frame_no_eol f = ((\<forall>r \<in> set (fst f). \<not> has_eol r) \<and> (\<forall>x \<in> set (snd f). \<not> has_eol (snd x)))"

section \<open>Notions used in the statements\<close>

text \<open>A snapshot whose patterns come in strictly increasing id, as the store lists them.\<close>

definition id_ordered :: "LogPattern list \<Rightarrow> bool" where
  "id_ordered ps = sorted_wrt (<) (map pattern_id ps)"

text \<open>
  The pattern list of one utility in a snapshot, the first pattern of such a list that
  matches a line, and whether that first match is an error pattern.
\<close>

definition utility_rules :: "LogPattern list \<Rightarrow> string \<Rightarrow> (string \<times> bool) list" where
  "utility_rules snapshot u =
     map (\<lambda>p. (regex p, is_error p)) (filter (\<lambda>p. utility_name p = u) snapshot)"

definition first_match :: "'rx re_engine \<Rightarrow> string \<Rightarrow> (string \<times> bool) list \<Rightarrow> (string \<times> bool) option" where
  "first_match E line pats = find (\<lambda>(rgx, err). re_match E rgx line = Inr True) pats"

definition counts_error :: "'rx re_engine \<Rightarrow> string \<Rightarrow> (string \<times> bool) list \<Rightarrow> bool" where
  "counts_error E line pats =
     (case first_match E line pats of Some (rgx, err) \<Rightarrow> err | None \<Rightarrow> False)"

text \<open>
  A regex on which the library raises an exception other than \<^verbatim>\<open>re.error\<close>. The exception, if
  any, that ends the scan of a pattern list on a line: that of the first such regex, unless
  an earlier pattern of the list matches the line. A log is scanned quietly when no scan of
  a utility's list on one of its non-blank lines ends with an exception.
\<close>

definition raises :: "'rx re_engine \<Rightarrow> string \<Rightarrow> bool" where
  "raises E rgx = (case re_compile E rgx of Inl e \<Rightarrow> e \<noteq> ReError | Inr r \<Rightarrow> False)"

fun scan :: "'rx re_engine \<Rightarrow> string \<Rightarrow> (string \<times> bool) list \<Rightarrow> py_error option" where
  "scan E line [] = None"
| "scan E line ((rgx, err) # rest) =
     (case re_match E rgx line of
        Inr True \<Rightarrow> None
      | Inr False \<Rightarrow> scan E line rest
      | Inl e \<Rightarrow> if e = ReError then scan E line rest else Some e)"

definition scanned_quietly :: "'rx re_engine \<Rightarrow> LogPattern list \<Rightarrow> string \<Rightarrow> bool" where
  "scanned_quietly E snapshot log_content =
     (\<forall>l \<in> set (splitlines log_content). strip l \<noteq> [] \<longrightarrow>
        (\<forall>u \<in> utility_name ` set snapshot. scan E l (utility_rules snapshot u) = None))"

text \<open>The number of non-blank lines whose first match in the list of \<open>u\<close> is an error pattern.\<close>

definition error_lines :: "'rx re_engine \<Rightarrow> LogPattern list \<Rightarrow> string \<Rightarrow> string list \<Rightarrow> nat" where
  "error_lines E snapshot u lines =
     length (filter (\<lambda>l. strip l \<noteq> [] \<and> counts_error E l (utility_rules snapshot u)) lines)"

text \<open>
  The store \<open>new\<close> is the store \<open>old\<close> followed by patterns that are not error patterns,
  await review and have a regex that compiles.
\<close>

definition appended_harmless :: "'rx re_engine \<Rightarrow> pattern_store \<Rightarrow> pattern_store \<Rightarrow> bool" where
  "appended_harmless E old new =
     (\<exists>added. new = old @ added \<and>
        list_all (\<lambda>p. \<not> is_error p \<and> need_reviewing p \<and> (\<exists>r. re_compile E (regex p) = Inr r)) added)"

text \<open>
  Every regex recorded in \<^verbatim>\<open>new_patterns\<close> is the regex of a pattern in the cache. This holds
  when a run starts, whatever the cache is then, and after every line.
\<close>

definition cache_consistent :: "run_state \<Rightarrow> bool" where
  "cache_consistent st =
     (new_patterns st = {} \<or>
      (\<exists>c. patterns_cache (parser st) = Some c \<and> new_patterns st \<subseteq> regex ` set c))"

text \<open>
  What holds of the state of a run after every line: the store is the store \<open>old\<close> of the
  start followed by one pattern for each regex in \<^verbatim>\<open>new_patterns\<close>; these patterns are not
  error patterns, await review and have a regex that compiles; their ids are increasing and
  above the ids of \<open>old\<close>; the ids reported are the ids of these patterns, in order; the
  duplicate branch has not been taken; and the cache is consistent.
\<close>

definition run_invariant :: "'rx re_engine \<Rightarrow> pattern_store \<Rightarrow> run_state \<Rightarrow> bool" where
  "run_invariant E old st =
     ((\<exists>added. pattern_store (parser st) = old @ added
         \<and> distinct (map regex added)
         \<and> regex ` set added = new_patterns st
         \<and> (\<forall>p \<in> set added. \<not> is_error p \<and> need_reviewing p \<and>
               (\<exists>r. re_compile E (regex p) = Inr r))
         \<and> sorted_wrt (<) (map pattern_id added)
         \<and> (\<forall>p \<in> set added. \<forall>q \<in> set old. pattern_id q < pattern_id p)
         \<and> List.map_filter report_id (reports st) = map pattern_id added)
      \<and> SkippedDuplicate \<notin> set (reports st)
      \<and> cache_consistent st)"

text \<open>Coordinate-wise sum of two vectors.\<close>

definition vec_add :: "int list \<Rightarrow> int list \<Rightarrow> int list" where
  "vec_add v w = map2 (+) v w"

section \<open>Example snapshots\<close>

definition toolchain_snapshot :: "LogPattern list" where
  "toolchain_snapshot =
     [\<lparr>pattern_id = 1, regex = ''make: '', utility_name = ''make'', is_error = True, need_reviewing = True\<rparr>,
      \<lparr>pattern_id = 2, regex = ''gcc: '', utility_name = ''gcc'', is_error = True, need_reviewing = True\<rparr>,
      \<lparr>pattern_id = 3, regex = ''npm ERR'', utility_name = ''npm'', is_error = True, need_reviewing = True\<rparr>,
      \<lparr>pattern_id = 4, regex = ''cc1: '', utility_name = ''gcc'', is_error = False, need_reviewing = True\<rparr>]"

definition overlap_snapshot :: "LogPattern list" where
  "overlap_snapshot =
     [\<lparr>pattern_id = 1, regex = ''a'', utility_name = ''alpha'', is_error = True, need_reviewing = True\<rparr>,
      \<lparr>pattern_id = 2, regex = ''ab'', utility_name = ''beta'', is_error = True, need_reviewing = True\<rparr>]"

definition demo_parser :: LLMParser where
  "demo_parser =
     \<lparr>pattern_store =
        [\<lparr>pattern_id = 1, regex = ''a'', utility_name = ''alpha'', is_error = True, need_reviewing = False\<rparr>],
      patterns_cache = None\<rparr>"

definition demo_parser_after :: LLMParser where
  "demo_parser_after =
     \<lparr>pattern_store =
        [\<lparr>pattern_id = 1, regex = ''a'', utility_name = ''alpha'', is_error = True, need_reviewing = False\<rparr>,
         \<lparr>pattern_id = 2, regex = ''xy'', utility_name = ''beta'', is_error = False, need_reviewing = True\<rparr>],
      patterns_cache = Some
        [\<lparr>pattern_id = 1, regex = ''a'', utility_name = ''alpha'', is_error = True, need_reviewing = False\<rparr>,
         \<lparr>pattern_id = 2, regex = ''xy'', utility_name = ''beta'', is_error = False, need_reviewing = True\<rparr>]\<rparr>"

definition demo_oracle :: "nat \<Rightarrow> string \<Rightarrow> llm_response" where
  "demo_oracle n line = JSONObject (Some ''xy'') (Some ''beta'')"

definition never_quit :: "nat \<Rightarrow> bool" where
  "never_quit n = False"

definition demo_log :: string where
  "demo_log = ''abc'' @ [CHR 0x0A] @ ''xyz''"

text \<open>
  A parser on an empty store, an oracle that proposes the same regex for every line, and a
  log of two lines, only the first of which the regex matches.
\<close>

definition empty_parser :: LLMParser where
  "empty_parser = \<lparr>pattern_store = [], patterns_cache = None\<rparr>"

definition repeat_oracle :: "nat \<Rightarrow> string \<Rightarrow> llm_response" where
  "repeat_oracle n line = JSONObject (Some ''a+'') (Some ''tool'')"

definition two_line_log :: string where
  "two_line_log = ''aaa'' @ [CHR 0x0A] @ ''bbb''"

text \<open>A pattern whose repeat count is beyond the limit of the library.\<close>

definition overflow_pattern :: LogPattern where
  "overflow_pattern = \<lparr>pattern_id = 1, regex = ''a{4294967296}'', utility_name = ''tool'',
                         is_error = True, need_reviewing = True\<rparr>"

text \<open>
  The scenario of the specification: the two patterns, the syslog line and the build line.
  A backslash and a closing quote cannot stand in a string literal and are appended.
\<close>

definition backslash :: string where
  "backslash = [CHR 0x5C]"

definition userdel_regex :: string where
  "userdel_regex =
     ''^userdel'' @ backslash @ ''['' @ backslash @ ''d+'' @ backslash @ '']: delete user '(.*)'$''"

definition build_regex :: string where
  "build_regex = ''^Building target platforms: ('' @ backslash @ ''w+)$''"

definition build_regex_open :: string where
  "build_regex_open = ''^Building target platforms: ('' @ backslash @ ''w+)''"

definition syslog_line :: string where
  "syslog_line = ''<86>May 16 05:13:18 userdel[616177]: delete user 'rooter'' @ [CHR 0x27]"

definition build_line :: string where
  "build_line = ''Building target platforms: x86_64''"

definition userdel_pattern :: LogPattern where
  "userdel_pattern = \<lparr>pattern_id = 1, regex = userdel_regex, utility_name = ''userdel'',
                        is_error = False, need_reviewing = True\<rparr>"

definition build_pattern :: LogPattern where
  "build_pattern = \<lparr>pattern_id = 2, regex = build_regex, utility_name = ''build'',
                      is_error = False, need_reviewing = True\<rparr>"

definition scenario_log :: string where
  "scenario_log = syslog_line @ [CHR 0x0A] @ build_line"

definition unclosed_pattern :: LogPattern where
  "unclosed_pattern = \<lparr>pattern_id = 1, regex = ''(unclosed'', utility_name = ''broken'',
                         is_error = True, need_reviewing = True\<rparr>"

section \<open>Classification is first-match-wins in store order\<close>

lemma matches_cases:
  "matches E p line = Inr True \<or> matches E p line = Inr False
     \<or> (\<exists>e. matches E p line = Inl e \<and> e \<noteq> ReError \<and> re_match E (regex p) line = Inl e)"
  by (auto simp: matches_def split: sum.splits)

lemma matches_True_iff:
  "(matches E p line = Inr True) = (re_match E (regex p) line = Inr True)"
  by (auto simp: matches_def split: sum.splits)

lemma matches_not_ReError: "matches E p line \<noteq> Inl ReError"
  by (auto simp: matches_def split: sum.splits)

lemma matches_Inl_raises: "matches E p line = Inl e \<Longrightarrow> raises E (regex p)"
  by (auto simp: matches_def re_match_def raises_def split: sum.splits if_splits)

text \<open>The first pattern whose \<open>matches\<close> is not \<open>False\<close> decides the result.\<close>

lemma parse_line_eq:
  "parse_line E line ps =
     (case find (\<lambda>p. matches E p line \<noteq> Inr False) ps of
        None \<Rightarrow> Inr (None, [])
      | Some p \<Rightarrow> (case matches E p line of Inl e \<Rightarrow> Inl e | Inr b \<Rightarrow> Inr (Some p, [])))"
proof (induction ps)
  case Nil
  then show ?case by simp
next
  case (Cons p ps)
  from matches_cases[of E p line] show ?case
  proof (elim disjE exE conjE)
    assume "matches E p line = Inr True"
    then show ?thesis by simp
  next
    assume "matches E p line = Inr False"
    then show ?thesis using Cons by simp
  next
    fix e assume "matches E p line = Inl e" "e \<noteq> ReError"
    then show ?thesis by simp
  qed
qed

lemma parse_line_silent: "parse_line E line ps = Inr (r, w) \<Longrightarrow> w = []"
  by (auto simp: parse_line_eq split: option.splits sum.splits)

lemma find_matching_parse_line:
  "find_matching E line ps =
     (case parse_line E line ps of Inl e \<Rightarrow> Inl e | Inr res \<Rightarrow> Inr (fst res))"
proof (induction ps)
  case Nil
  then show ?case by simp
next
  case (Cons p ps)
  from matches_cases[of E p line] show ?case
  proof (elim disjE exE conjE)
    assume "matches E p line = Inr True"
    then show ?thesis by simp
  next
    assume "matches E p line = Inr False"
    then show ?thesis using Cons by simp
  next
    fix e assume "matches E p line = Inl e" "e \<noteq> ReError"
    then show ?thesis by simp
  qed
qed

lemma find_decisive:
  "find (\<lambda>p. matches E p line \<noteq> Inr False) ps = Some r \<Longrightarrow>
     \<exists>k < length ps. r = ps ! k \<and> matches E r line \<noteq> Inr False \<and>
        (\<forall>j < k. matches E (ps ! j) line = Inr False)"
  unfolding find_Some_iff by blast

lemma parse_line_Some:
  assumes "parse_line E line ps = Inr (Some r, w)"
  shows "\<exists>k < length ps. r = ps ! k \<and> matches E r line = Inr True \<and>
           (\<forall>j < k. matches E (ps ! j) line = Inr False)"
proof -
  from assms obtain r' where f: "find (\<lambda>p. matches E p line \<noteq> Inr False) ps = Some r'"
    by (auto simp: parse_line_eq split: option.splits)
  with assms have r: "r' = r" and nI: "\<forall>e. matches E r' line \<noteq> Inl e"
    by (auto simp: parse_line_eq split: sum.splits)
  from find_decisive[OF f] obtain k where k: "k < length ps" "r' = ps ! k"
      "matches E r' line \<noteq> Inr False" "\<forall>j < k. matches E (ps ! j) line = Inr False"
    by blast
  have "matches E r' line = Inr True"
    using matches_cases[of E r' line] k(3) nI by auto
  then show ?thesis using k r by blast
qed

lemma parse_line_None:
  assumes "parse_line E line ps = Inr (None, w)"
  shows "\<forall>p \<in> set ps. matches E p line = Inr False"
proof -
  from assms have "find (\<lambda>p. matches E p line \<noteq> Inr False) ps = None"
    by (auto simp: parse_line_eq split: option.splits sum.splits)
  then show ?thesis by (simp add: find_None_iff)
qed

lemma parse_line_Inl:
  assumes "parse_line E line ps = Inl e"
  shows "\<exists>k < length ps. matches E (ps ! k) line = Inl e \<and>
           (\<forall>j < k. matches E (ps ! j) line = Inr False)"
proof -
  from assms obtain r where f: "find (\<lambda>p. matches E p line \<noteq> Inr False) ps = Some r"
    by (auto simp: parse_line_eq split: option.splits)
  with assms have e: "matches E r line = Inl e"
    by (auto simp: parse_line_eq split: sum.splits)
  from find_decisive[OF f] e show ?thesis by blast
qed

lemma parse_line_returns:
  assumes "\<forall>p \<in> set ps. \<not> raises E (regex p)"
  shows "\<exists>res. parse_line E line ps = Inr (res, [])"
proof (cases "parse_line E line ps")
  case (Inl e)
  from parse_line_Inl[OF Inl] obtain k where "k < length ps" "matches E (ps ! k) line = Inl e"
    by blast
  then have "raises E (regex (ps ! k))" "ps ! k \<in> set ps"
    by (auto dest: matches_Inl_raises)
  with assms show ?thesis by blast
next
  case (Inr res)
  then show ?thesis using parse_line_silent[of E line ps "fst res" "snd res"] by (cases res) auto
qed

lemma id_ordered_nth:
  "id_ordered ps \<Longrightarrow> i < j \<Longrightarrow> j < length ps \<Longrightarrow> pattern_id (ps ! i) < pattern_id (ps ! j)"
  by (simp add: id_ordered_def sorted_wrt_iff_nth_less)

lemma next_id_greater: "p \<in> set rows \<Longrightarrow> pattern_id p < next_id rows"
proof -
  have "\<And>a. x \<in> set xs \<Longrightarrow> x \<le> fold max xs (a::nat)" for x xs
  proof (induction xs)
    case Nil then show ?case by simp
  next
    case (Cons y ys)
    have ge: "\<And>a. a \<le> fold max ys (a::nat)" for ys
      by (induction ys) (auto intro: order_trans[OF max.cobounded2])
    show ?case 
    proof (cases "x = y")
      case True
      then show ?thesis using ge[of "max y a" ys] by simp
    next
      case False
      then show ?thesis using Cons by simp
    qed
  qed
  then show "p \<in> set rows \<Longrightarrow> pattern_id p < next_id rows"
    unfolding next_id_def by (metis imageI less_Suc_eq_le set_map Suc_eq_plus1)
qed

lemma id_ordered_add_pattern:
  "id_ordered rows \<Longrightarrow> id_ordered (fst (add_pattern rows r u e n))"
  by (auto simp: id_ordered_def add_pattern_def sorted_wrt_append next_id_greater)

lemma id_ordered_delete_pattern:
  "id_ordered rows \<Longrightarrow> id_ordered (fst (delete_pattern rows i))"
  unfolding id_ordered_def delete_pattern_def
  by (simp add: sorted_wrt_filter sorted_wrt_map)

text \<open>
  Claim C2. When \<open>parse_line\<close> returns a pattern, it is the first pattern of the snapshot, in
  snapshot order, that matches the line, and every pattern before it was tried and did not
  match; when it returns nothing, no pattern matches; when it raises, the exception is the
  one \<open>matches\<close> raised on some pattern, no pattern before which matches. It returns, with no
  warning printed, whenever the library raises nothing but \<^verbatim>\<open>re.error\<close> on the regexes of the
  snapshot. The search written inline in \<^verbatim>\<open>process_unprocessed_log\<close> has the same outcome. In
  a snapshot ordered by id, when two patterns \<open>p\<close> and \<open>q\<close> with
  \<open>pattern_id p < pattern_id q\<close> both match, a result returned is never \<open>q\<close>: it is a matching
  pattern with an id not above that of \<open>p\<close>, and it is \<open>p\<close> itself when no other pattern
  matches.
\<close>

theorem classify_first_match_wins:
  "(\<forall>r w. parse_line E line ps = Inr (Some r, w) \<longrightarrow>
       (\<exists>k < length ps. r = ps ! k \<and> matches E r line = Inr True \<and>
          (\<forall>j < k. matches E (ps ! j) line = Inr False)))
   \<and> (\<forall>w. parse_line E line ps = Inr (None, w) \<longrightarrow>
         (\<forall>p \<in> set ps. matches E p line = Inr False))
   \<and> (\<forall>e. parse_line E line ps = Inl e \<longrightarrow>
         (\<exists>k < length ps. matches E (ps ! k) line = Inl e \<and>
            (\<forall>j < k. matches E (ps ! j) line = Inr False)))
   \<and> ((\<forall>p \<in> set ps. \<not> raises E (regex p)) \<longrightarrow> (\<exists>res. parse_line E line ps = Inr (res, [])))
   \<and> find_matching E line ps =
       (case parse_line E line ps of Inl e \<Rightarrow> Inl e | Inr res \<Rightarrow> Inr (fst res))
   \<and> (id_ordered ps \<and> p \<in> set ps \<and> q \<in> set ps \<and> pattern_id p < pattern_id q \<and>
        matches E p line = Inr True \<and> matches E q line = Inr True \<and>
        parse_line E line ps = Inr (res, w)
        \<longrightarrow> (\<exists>r. res = Some r \<and> matches E r line = Inr True \<and>
                 pattern_id r \<le> pattern_id p \<and> r \<noteq> q))
   \<and> (id_ordered ps \<and> p \<in> set ps \<and> q \<in> set ps \<and> pattern_id p < pattern_id q \<and>
        matches E p line = Inr True \<and> matches E q line = Inr True \<and>
        (\<forall>r \<in> set ps. matches E r line = Inr True \<longrightarrow> r = p \<or> r = q) \<and>
        parse_line E line ps = Inr (res, w)
        \<longrightarrow> res = Some p)"
proof -
  let ?P = "\<lambda>p. matches E p line = Inr True"
  have some: "\<forall>r w. parse_line E line ps = Inr (Some r, w) \<longrightarrow>
       (\<exists>k < length ps. r = ps ! k \<and> matches E r line = Inr True \<and>
          (\<forall>j < k. matches E (ps ! j) line = Inr False))"
    using parse_line_Some by blast
  have none: "\<forall>w. parse_line E line ps = Inr (None, w) \<longrightarrow>
         (\<forall>p \<in> set ps. matches E p line = Inr False)"
    using parse_line_None by blast
  have exn: "\<forall>e. parse_line E line ps = Inl e \<longrightarrow>
         (\<exists>k < length ps. matches E (ps ! k) line = Inl e \<and>
            (\<forall>j < k. matches E (ps ! j) line = Inr False))"
    using parse_line_Inl by blast
  have ret: "(\<forall>p \<in> set ps. \<not> raises E (regex p)) \<longrightarrow> (\<exists>res. parse_line E line ps = Inr (res, []))"
    using parse_line_returns by blast
  have same: "find_matching E line ps =
       (case parse_line E line ps of Inl e \<Rightarrow> Inl e | Inr res \<Rightarrow> Inr (fst res))"
    by (rule find_matching_parse_line)
  have earlier: "\<exists>r. res = Some r \<and> ?P r \<and> pattern_id r \<le> pattern_id p \<and> r \<noteq> q"
    if ord: "id_ordered ps" and p: "p \<in> set ps" and q: "q \<in> set ps"
      and lt: "pattern_id p < pattern_id q" and mp: "?P p" and mq: "?P q"
      and run: "parse_line E line ps = Inr (res, w)" for p q res w
  proof (cases res)
    case None
    then show ?thesis using parse_line_None[of E line ps w] run p mp by auto
  next
    case (Some r)
    from parse_line_Some[of E line ps r w] run Some obtain k where
      k: "k < length ps" "r = ps ! k" "?P r" "\<forall>j < k. matches E (ps ! j) line = Inr False"
      by blast
    from p obtain i where i: "i < length ps" "ps ! i = p" by (auto simp: in_set_conv_nth)
    have "\<not> i < k" using k(4) i mp by auto
    then have "k \<le> i" by simp
    then have "pattern_id r \<le> pattern_id p"
      using id_ordered_nth[OF ord, of k i] i k(2) by (cases "k = i") auto
    then show ?thesis using Some k(3) lt by auto
  qed
  have only: "res = Some p"
    if ord: "id_ordered ps" and p: "p \<in> set ps" and q: "q \<in> set ps"
      and lt: "pattern_id p < pattern_id q" and mp: "?P p" and mq: "?P q"
      and two: "\<forall>r \<in> set ps. ?P r \<longrightarrow> r = p \<or> r = q"
      and run: "parse_line E line ps = Inr (res, w)" for p q res w
  proof -
    from earlier[OF ord p q lt mp mq run] obtain r where
      r: "res = Some r" "?P r" "r \<noteq> q" by blast
    from parse_line_Some[of E line ps r w] run r(1) have "r \<in> set ps" by auto
    then show ?thesis using two r by auto
  qed
  show ?thesis
    apply (intro conjI)
          apply (rule some)
         apply (rule none)
        apply (rule exn)
       apply (rule ret)
      apply (rule same)
     apply (use earlier in blast)
    apply (use only in blast)
    done
qed

theorem classify_first_match_wins_witness:
  "id_ordered [\<lparr>pattern_id = 1, regex = ''a'', utility_name = ''x'', is_error = False, need_reviewing = True\<rparr>,
               \<lparr>pattern_id = 2, regex = ''ab'', utility_name = ''y'', is_error = True, need_reviewing = True\<rparr>]
   \<and> \<not> raises (py_re no_other) ''a'' \<and> \<not> raises (py_re no_other) ''ab''
   \<and> matches (py_re no_other) \<lparr>pattern_id = 1, regex = ''a'', utility_name = ''x'', is_error = False, need_reviewing = True\<rparr> ''abc'' = Inr True
   \<and> matches (py_re no_other) \<lparr>pattern_id = 2, regex = ''ab'', utility_name = ''y'', is_error = True, need_reviewing = True\<rparr> ''abc'' = Inr True
   \<and> parse_line (py_re no_other) ''abc''
          [\<lparr>pattern_id = 1, regex = ''a'', utility_name = ''x'', is_error = False, need_reviewing = True\<rparr>,
           \<lparr>pattern_id = 2, regex = ''ab'', utility_name = ''y'', is_error = True, need_reviewing = True\<rparr>]
       = Inr (Some \<lparr>pattern_id = 1, regex = ''a'', utility_name = ''x'', is_error = False, need_reviewing = True\<rparr>, [])
   \<and> find_matching (py_re no_other) ''abc''
          [\<lparr>pattern_id = 1, regex = ''a'', utility_name = ''x'', is_error = False, need_reviewing = True\<rparr>,
           \<lparr>pattern_id = 2, regex = ''ab'', utility_name = ''y'', is_error = True, need_reviewing = True\<rparr>]
       = Inr (Some \<lparr>pattern_id = 1, regex = ''a'', utility_name = ''x'', is_error = False, need_reviewing = True\<rparr>)"
proof -
  let ?p = "\<lparr>pattern_id = 1, regex = ''a'', utility_name = ''x'', is_error = False, need_reviewing = True\<rparr>"
  let ?q = "\<lparr>pattern_id = 2, regex = ''ab'', utility_name = ''y'', is_error = True, need_reviewing = True\<rparr>"
  let ?E = "py_re no_other"
  have ord: "id_ordered [?p, ?q]" by (simp add: id_ordered_def)
  have ca: "py_compile ''a'' = Compiled (Lit CHR ''a'')" by code_simp
  have cb: "py_compile ''ab'' = Compiled (Seq (Lit CHR ''a'') (Lit CHR ''b''))" by code_simp
  have ra: "\<not> raises ?E ''a''" and rb: "\<not> raises ?E ''ab''"
    by (simp_all add: raises_def py_re_def ca cb)
  have mp: "matches ?E ?p ''abc'' = Inr True" by code_simp
  have mq: "matches ?E ?q ''abc'' = Inr True" by code_simp
  note inst = classify_first_match_wins[where E = ?E and line = "''abc''" and ps = "[?p, ?q]"
            and p = ?p and q = ?q]
  have safe: "\<forall>x \<in> set [?p, ?q]. \<not> raises ?E (regex x)" using ra rb by simp
  from inst safe obtain res where run: "parse_line ?E ''abc'' [?p, ?q] = Inr (res, [])" by blast
  have two: "\<forall>r \<in> set [?p, ?q]. matches ?E r ''abc'' = Inr True \<longrightarrow> r = ?p \<or> r = ?q" by simp
  have "res = Some ?p"
    using classify_first_match_wins[where E = ?E and line = "''abc''" and ps = "[?p, ?q]"
            and p = ?p and q = ?q and res = res and w = "[]"] ord mp mq two run
    by simp
  then have pl: "parse_line ?E ''abc'' [?p, ?q] = Inr (Some ?p, [])" using run by simp
  have fm: "find_matching ?E ''abc'' [?p, ?q] = Inr (Some ?p)"
    using inst pl by simp
  show ?thesis using ord ra rb mp mq pl fm by simp
qed

section \<open>Lines of a text\<close>

lemma strip_empty_iff: "(strip l = []) = (\<forall>c \<in> set l. is_space c)"
proof
  assume "strip l = []"
  then have "dropWhile is_space (rev (dropWhile is_space l)) = []" by (simp add: strip_def)
  then have all: "\<forall>c \<in> set (dropWhile is_space l). is_space c"
    by (simp add: dropWhile_eq_Nil_conv)
  have "dropWhile is_space l = []"
  proof (rule ccontr)
    assume ne: "dropWhile is_space l \<noteq> []"
    then have "\<not> is_space (hd (dropWhile is_space l))" by (rule hd_dropWhile)
    moreover have "hd (dropWhile is_space l) \<in> set (dropWhile is_space l)" using ne by simp
    ultimately show False using all by blast
  qed
  then show "\<forall>c \<in> set l. is_space c" by (simp only: dropWhile_eq_Nil_conv)
next
  assume "\<forall>c \<in> set l. is_space c"
  then have d: "dropWhile is_space l = []" by (metis dropWhile_eq_Nil_conv)
  show "strip l = []" unfolding strip_def d by simp
qed

lemma cr_linebreak: "is_linebreak (CHR 0x0D)"
  by (simp add: is_linebreak_def)

lemma lf_linebreak: "is_linebreak (CHR 0x0A)"
  by (simp add: is_linebreak_def)

lemma linebreak_is_space: "is_linebreak c \<Longrightarrow> is_space c"
  unfolding is_linebreak_def is_space_def by (elim insertE) simp_all


lemma splitlines_from_Cons:
  "splitlines_from cur (c # cs) =
     (if c = CHR 0x0D then
        rev cur # (case cs of [] \<Rightarrow> []
                   | d # ds \<Rightarrow> if d = CHR 0x0A then splitlines_from [] ds
                              else splitlines_from [] (d # ds))
      else if is_linebreak c then rev cur # splitlines_from [] cs
      else splitlines_from (c # cur) cs)"
  by (simp split: list.splits)

lemma splitlines_from_chars:
  "l \<in> set (splitlines_from cur cs) \<Longrightarrow> set l \<subseteq> set cur \<union> set cs"
proof (induction cur cs arbitrary: l rule: splitlines_from.induct)
  case (1 cur)
  then show ?case by (auto split: if_splits)
next
  case (2 cur c cs)
  show ?case
  proof (cases "c = CHR 0x0D")
    case True
    show ?thesis
    proof (cases cs)
      case Nil
      then have "l = rev cur" using True "2.prems" by simp
      then show ?thesis by auto
    next
      case (Cons d ds)
      show ?thesis
      proof (cases "d = CHR 0x0A")
        case T2: True
        then have "l = rev cur \<or> l \<in> set (splitlines_from [] ds)"
          using True Cons "2.prems" by simp
        then show ?thesis using "2.IH"(1)[OF True Cons T2] Cons by auto
      next
        case F2: False
        then have "l = rev cur \<or> l \<in> set (splitlines_from [] (d # ds))"
          using True Cons "2.prems" by simp
        then show ?thesis using "2.IH"(2)[OF True Cons F2] Cons by auto
      qed
    qed
  next
    case False
    show ?thesis
    proof (cases "is_linebreak c")
      case T3: True
      then have "l = rev cur \<or> l \<in> set (splitlines_from [] cs)"
        using False "2.prems" by simp
      then show ?thesis using "2.IH"(3)[OF False T3] by auto
    next
      case F3: False
      then have "l \<in> set (splitlines_from (c # cur) cs)"
        using False "2.prems" by simp
      then show ?thesis using "2.IH"(4)[OF False F3] by auto
    qed
  qed
qed

lemma splitlines_from_no_linebreak:
  "l \<in> set (splitlines_from cur cs) \<Longrightarrow> \<forall>c \<in> set cur. \<not> is_linebreak c \<Longrightarrow>
     \<forall>c \<in> set l. \<not> is_linebreak c"
proof (induction cur cs arbitrary: l rule: splitlines_from.induct)
  case (1 cur)
  then show ?case by (auto split: if_splits)
next
  case (2 cur c cs)
  have nil: "\<forall>c \<in> set ([]::string). \<not> is_linebreak c" by simp
  have here: "\<forall>c \<in> set (rev cur). \<not> is_linebreak c" using "2.prems"(2) by simp
  show ?case
  proof (cases "c = CHR 0x0D")
    case True
    show ?thesis
    proof (cases cs)
      case Nil
      then have "l = rev cur" using True "2.prems"(1) by simp
      then show ?thesis using here by simp
    next
      case (Cons d ds)
      show ?thesis
      proof (cases "d = CHR 0x0A")
        case T2: True
        then have "l = rev cur \<or> l \<in> set (splitlines_from [] ds)"
          using True Cons "2.prems"(1) by simp
        then show ?thesis using "2.IH"(1)[OF True Cons T2 _ nil] here by blast
      next
        case F2: False
        then have "l = rev cur \<or> l \<in> set (splitlines_from [] (d # ds))"
          using True Cons "2.prems"(1) by simp
        then show ?thesis using "2.IH"(2)[OF True Cons F2 _ nil] here by blast
      qed
    qed
  next
    case False
    show ?thesis
    proof (cases "is_linebreak c")
      case T3: True
      then have "l = rev cur \<or> l \<in> set (splitlines_from [] cs)"
        using False "2.prems"(1) by simp
      then show ?thesis using "2.IH"(3)[OF False T3 _ nil] here by blast
    next
      case F3: False
      then have "l \<in> set (splitlines_from (c # cur) cs)"
        using False "2.prems"(1) by simp
      moreover have "\<forall>x \<in> set (c # cur). \<not> is_linebreak x" using F3 "2.prems"(2) by simp
      ultimately show ?thesis using "2.IH"(4)[OF False F3] by blast
    qed
  qed
qed

lemma splitlines_from_single:
  "\<forall>c \<in> set s. \<not> is_linebreak c \<Longrightarrow>
     splitlines_from cur s = (if rev cur @ s = [] then [] else [rev cur @ s])"
proof (induction s arbitrary: cur)
  case Nil
  then show ?case by simp
next
  case (Cons c s)
  then have c: "c \<noteq> CHR 0x0D" "\<not> is_linebreak c" using cr_linebreak by auto
  have "splitlines_from cur (c # s) = splitlines_from (c # cur) s" using c by simp
  then show ?case using Cons by simp
qed


lemma splitlines_from_append_lf:
  "splitlines_from cur (a @ CHR 0x0A # b) =
     splitlines_from cur (a @ [CHR 0x0A]) @ splitlines_from [] b"
proof (induction cur a rule: splitlines_from.induct)
  case (1 cur)
  then show ?case by (simp add: lf_linebreak)
next
  case (2 cur c cs)
  show ?case
  proof (cases "c = CHR 0x0D")
    case True
    show ?thesis
    proof (cases cs)
      case Nil
      then show ?thesis using True by simp
    next
      case (Cons d ds)
      show ?thesis
      proof (cases "d = CHR 0x0A")
        case T2: True
        show ?thesis using "2.IH"(1)[OF True Cons T2] True Cons T2 by simp
      next
        case F2: False
        show ?thesis using "2.IH"(2)[OF True Cons F2] True Cons F2 by simp
      qed
    qed
  next
    case False
    show ?thesis
    proof (cases "is_linebreak c")
      case T3: True
      show ?thesis using "2.IH"(3)[OF False T3] False T3 by simp
    next
      case F3: False
      show ?thesis using "2.IH"(4)[OF False F3] False F3 by simp
    qed
  qed
qed

lemma splitlines_from_snoc_lf:
  "\<exists>e. splitlines_from cur (a @ [CHR 0x0A]) = splitlines_from cur a @ e \<and> set e \<subseteq> {[]}"
proof (induction cur a rule: splitlines_from.induct)
  case (1 cur)
  then show ?case by (simp add: lf_linebreak)
next
  case (2 cur c cs)
  show ?case
  proof (cases "c = CHR 0x0D")
    case True
    show ?thesis
    proof (cases cs)
      case Nil
      then show ?thesis using True by simp
    next
      case (Cons d ds)
      show ?thesis
      proof (cases "d = CHR 0x0A")
        case T2: True
        show ?thesis using "2.IH"(1)[OF True Cons T2] True Cons T2 by simp
      next
        case F2: False
        show ?thesis using "2.IH"(2)[OF True Cons F2] True Cons F2 by simp
      qed
    qed
  next
    case False
    show ?thesis
    proof (cases "is_linebreak c")
      case T3: True
      show ?thesis using "2.IH"(3)[OF False T3] False T3 by simp
    next
      case F3: False
      show ?thesis using "2.IH"(4)[OF False F3] False F3 by simp
    qed
  qed
qed

section \<open>The utility index and the embedding, in closed form\<close>

lemma dict_append_keys:
  "map fst (dict_append k v g) = (if k \<in> fst ` set g then map fst g else map fst g @ [k])"
  by (induction g) (force+)

lemma dict_append_map_of:
  "map_of (dict_append k v g) =
     (map_of g)(k \<mapsto> (case map_of g k of None \<Rightarrow> [v] | Some vs \<Rightarrow> vs @ [v]))"
  by (induction g) (auto simp: fun_eq_iff)

lemma group_patterns_snoc:
  "group_patterns (ps @ [p]) = dict_append (utility_name p) (regex p, is_error p) (group_patterns ps)"
  by (simp add: group_patterns_def)

lemma group_patterns_keys_set: "set (map fst (group_patterns ps)) = utility_name ` set ps"
  by (induction ps rule: rev_induct) (auto simp: group_patterns_snoc dict_append_keys group_patterns_def)

lemma group_patterns_keys_distinct: "distinct (map fst (group_patterns ps))"
proof (induction ps rule: rev_induct)
  case Nil
  then show ?case by (simp add: group_patterns_def)
next
  case (snoc p ps)
  then show ?case by (simp add: group_patterns_snoc dict_append_keys)
qed

lemma group_patterns_map_of:
  "map_of (group_patterns ps) u =
     (if u \<in> utility_name ` set ps then Some (utility_rules ps u) else None)"
proof (induction ps rule: rev_induct)
  case Nil
  then show ?case by (simp add: group_patterns_def)
next
  case (snoc p ps)
  then show ?case
    by (auto simp: group_patterns_snoc dict_append_map_of utility_rules_def filter_empty_conv)
       (metis image_eqI)
qed

lemma scan_safe:
  "\<forall>x \<in> set pats. \<not> raises E (fst x) \<Longrightarrow> scan E line pats = None"
  by (induction E line pats rule: scan.induct)
     (auto simp: re_match_def raises_def split: sum.splits bool.splits)

lemma pattern_loop_eq:
  "pattern_loop E line idx pats emb =
     (case scan E line pats of
        Some e \<Rightarrow> Inl e
      | None \<Rightarrow>
          if counts_error E line pats
          then (if idx < length emb then Inr (emb[idx := emb ! idx + 1]) else Inl IndexError)
          else Inr emb)"
  by (induction pats) (auto simp: counts_error_def first_match_def split: sum.splits bool.splits)

lemma pattern_loop_returns:
  "pattern_loop E line idx pats emb = Inr emb' \<Longrightarrow> scan E line pats = None"
  by (auto simp: pattern_loop_eq split: option.splits)

lemma utility_loop_eq:
  assumes "\<forall>(u, pats) \<in> set gs. \<exists>i. map_of m u = Some i \<and> i < length emb"
    and "\<forall>(u, pats) \<in> set gs. scan E line pats = None"
  shows "\<exists>emb'. utility_loop E m line gs emb = Inr emb' \<and> length emb' = length emb \<and>
           (\<forall>i < length emb. emb' ! i = emb ! i +
              int (length (filter (\<lambda>(u, pats). map_of m u = Some i \<and> counts_error E line pats) gs)))"
  using assms
proof (induction gs arbitrary: emb)
  case Nil
  then show ?case by simp
next
  case (Cons a gs)
  obtain u pats where a: "a = (u, pats)" by (cases a)
  from Cons.prems a obtain j where j: "map_of m u = Some j" "j < length emb" by auto
  from Cons.prems(2) a have quiet: "scan E line pats = None" by simp
  define emb1 where "emb1 = (if counts_error E line pats then emb[j := emb ! j + 1] else emb)"
  have pl: "pattern_loop E line j pats emb = Inr emb1"
    using j quiet by (simp add: pattern_loop_eq emb1_def)
  have len1: "length emb1 = length emb" by (simp add: emb1_def)
  have p1: "\<forall>(u, pats) \<in> set gs. \<exists>i. map_of m u = Some i \<and> i < length emb1"
    using Cons.prems(1) len1 by auto
  have p2: "\<forall>(u, pats) \<in> set gs. scan E line pats = None"
    using Cons.prems(2) by auto
  from Cons.IH[OF p1 p2] obtain emb' where
    e: "utility_loop E m line gs emb1 = Inr emb'" "length emb' = length emb1"
       "\<forall>i < length emb1. emb' ! i = emb1 ! i +
              int (length (filter (\<lambda>(u, pats). map_of m u = Some i \<and> counts_error E line pats) gs))"
    by blast
  have "utility_loop E m line (a # gs) emb = Inr emb'"
    using a j pl e(1) by simp
  moreover have "length emb' = length emb" using e(2) len1 by simp
  moreover have "\<forall>i < length emb. emb' ! i = emb ! i +
              int (length (filter (\<lambda>(u, pats). map_of m u = Some i \<and> counts_error E line pats) (a # gs)))"
  proof (intro allI impI)
    fix i assume i: "i < length emb"
    have "emb1 ! i = emb ! i + (if j = i \<and> counts_error E line pats then 1 else 0)"
      using i j by (auto simp: emb1_def)
    then show "emb' ! i = emb ! i +
              int (length (filter (\<lambda>(u, pats). map_of m u = Some i \<and> counts_error E line pats) (a # gs)))"
      using e(3) i len1 a j by auto
  qed
  ultimately show ?case by blast
qed

lemma utility_loop_returns:
  "utility_loop E m line gs emb = Inr emb' \<Longrightarrow> \<forall>(u, pats) \<in> set gs. scan E line pats = None"
proof (induction gs arbitrary: emb)
  case Nil
  then show ?case by simp
next
  case (Cons a gs)
  obtain u pats where a: "a = (u, pats)" by (cases a)
  from Cons.prems a obtain j emb1 where
    s: "pattern_loop E line j pats emb = Inr emb1" "utility_loop E m line gs emb1 = Inr emb'"
    by (auto split: option.splits sum.splits)
  from pattern_loop_returns[OF s(1)] Cons.IH[OF s(2)] a show ?case by simp
qed

lemma utility_loop_Inl:
  assumes "\<forall>(u, pats) \<in> set gs. \<exists>i. map_of m u = Some i \<and> i < length emb"
    and "utility_loop E m line gs emb = Inl e"
  shows "\<exists>(u, pats) \<in> set gs. scan E line pats = Some e"
  using assms
proof (induction gs arbitrary: emb)
  case Nil
  then show ?case by simp
next
  case (Cons a gs)
  obtain u pats where a: "a = (u, pats)" by (cases a)
  from Cons.prems(1) a obtain j where j: "map_of m u = Some j" "j < length emb" by auto
  show ?case
  proof (cases "scan E line pats")
    case (Some e')
    then have "utility_loop E m line (a # gs) emb = Inl e'"
      using a j by (simp add: pattern_loop_eq)
    then show ?thesis using Cons.prems(2) Some a by simp
  next
    case None
    define emb1 where "emb1 = (if counts_error E line pats then emb[j := emb ! j + 1] else emb)"
    have pl: "pattern_loop E line j pats emb = Inr emb1"
      using j None by (simp add: pattern_loop_eq emb1_def)
    have len1: "length emb1 = length emb" by (simp add: emb1_def)
    have p1: "\<forall>(u, pats) \<in> set gs. \<exists>i. map_of m u = Some i \<and> i < length emb1"
      using Cons.prems(1) len1 by auto
    have "utility_loop E m line gs emb1 = Inl e"
      using Cons.prems(2) a j pl by simp
    from Cons.IH[OF p1 this] show ?thesis by auto
  qed
qed

lemma filter_key_distinct:
  "distinct (map fst gs) \<Longrightarrow> map_of gs k = Some v \<Longrightarrow>
     filter (\<lambda>(u, pats). u = k \<and> P pats) gs = (if P v then [(k, v)] else [])"
proof (induction gs)
  case Nil
  then show ?case by simp
next
  case (Cons a gs)
  obtain u pats where a: "a = (u, pats)" by (cases a)
  show ?case
  proof (cases "u = k")
    case True
    then have "k \<notin> fst ` set gs" using Cons.prems a by auto
    then have "filter (\<lambda>(u, pats). u = k \<and> P pats) gs = []"
      by (auto simp: filter_empty_conv) (metis fst_conv image_eqI)
    then show ?thesis using True a Cons.prems by auto
  next
    case False
    then show ?thesis using a Cons by auto
  qed
qed

lemma index_lookup:
  assumes "distinct names"
  shows "(map_of (zip names [0..<length names]) u = Some i) = (i < length names \<and> names ! i = u)"
proof
  assume "map_of (zip names [0..<length names]) u = Some i"
  then have "(u, i) \<in> set (zip names [0..<length names])" by (rule map_of_SomeD)
  then show "i < length names \<and> names ! i = u"
    by (auto simp: set_zip)
next
  assume a: "i < length names \<and> names ! i = u"
  have "map_of (zip names [0..<length names]) (names ! i) = Some ([0..<length names] ! i)"
    by (rule map_of_zip_nth) (use a assms in auto)
  then show "map_of (zip names [0..<length names]) u = Some i" using a by simp
qed

lemma names_sorted_keys:
  "sort (map fst (group_patterns ps)) = sorted_list_of_set (utility_name ` set ps)"
  by (metis group_patterns_keys_set group_patterns_keys_distinct sorted_list_of_set_sort_remdups distinct_remdups_id)

lemma group_patterns_length: "length (group_patterns ps) = card (utility_name ` set ps)"
  using distinct_card[OF group_patterns_keys_distinct, of ps]
  by (simp add: group_patterns_keys_set del: set_map)

lemma utility_names_initialize:
  "utility_names (initialize_mappings ps) = sorted_list_of_set (utility_name ` set ps)"
proof -
  let ?names = "sort (map fst (group_patterns ps))"
  have "sort_key snd (zip ?names [0..<length ?names]) = zip ?names [0..<length ?names]"
    by (rule sort_key_id_if_sorted) simp
  then show ?thesis
    by (simp add: utility_names_def initialize_mappings_def Let_def names_sorted_keys
          group_patterns_length)
qed

lemma dimension_initialize:
  "dimension (initialize_mappings ps) = card (utility_name ` set ps)"
  by (simp add: dimension_def initialize_mappings_def Let_def names_sorted_keys group_patterns_length)

lemma group_patterns_member:
  "((u, pats) \<in> set (group_patterns ps)) = (u \<in> utility_name ` set ps \<and> pats = utility_rules ps u)"
proof -
  have "((u, pats) \<in> set (group_patterns ps)) = (map_of (group_patterns ps) u = Some pats)"
    using group_patterns_keys_distinct[of ps] by simp
  then show ?thesis by (auto simp: group_patterns_map_of)
qed

lemma patterns_by_utility_initialize:
  "patterns_by_utility (initialize_mappings ps) = group_patterns ps"
  by (simp add: initialize_mappings_def Let_def)

lemma groups_quiet_iff:
  "(\<forall>(u, pats) \<in> set (group_patterns ps). scan E line pats = None) =
     (\<forall>u \<in> utility_name ` set ps. scan E line (utility_rules ps u) = None)"
proof
  assume a: "\<forall>(u, pats) \<in> set (group_patterns ps). scan E line pats = None"
  show "\<forall>u \<in> utility_name ` set ps. scan E line (utility_rules ps u) = None"
  proof
    fix u assume "u \<in> utility_name ` set ps"
    then have "(u, utility_rules ps u) \<in> set (group_patterns ps)"
      by (simp add: group_patterns_member)
    with a show "scan E line (utility_rules ps u) = None" by blast
  qed
next
  assume "\<forall>u \<in> utility_name ` set ps. scan E line (utility_rules ps u) = None"
  then show "\<forall>(u, pats) \<in> set (group_patterns ps). scan E line pats = None"
    by (auto simp: group_patterns_member)
qed

lemma initialize_lookup:
  assumes "length emb = dimension (initialize_mappings ps)"
  shows "\<forall>(u, pats) \<in> set (group_patterns ps).
           \<exists>i. map_of (utility_mapping (initialize_mappings ps)) u = Some i \<and> i < length emb"
proof -
  let ?names = "sorted_list_of_set (utility_name ` set ps)"
  let ?m = "zip ?names [0..<length ?names]"
  have m: "utility_mapping (initialize_mappings ps) = ?m"
    by (simp_all add: initialize_mappings_def Let_def names_sorted_keys group_patterns_length)
  have len: "length emb = length ?names"
    using assms by (simp add: dimension_def m)
  have dn: "distinct ?names" by simp
  have sn: "set ?names = utility_name ` set ps" by simp
  show ?thesis
  proof (clarify)
    fix u pats assume "(u, pats) \<in> set (group_patterns ps)"
    then have "u \<in> set (map fst (group_patterns ps))" by force
    then have "u \<in> set ?names" unfolding group_patterns_keys_set sn .
    then obtain i where "i < length ?names" "?names ! i = u" by (metis in_set_conv_nth)
    then show "\<exists>i. map_of (utility_mapping (initialize_mappings ps)) u = Some i \<and> i < length emb"
      using index_lookup[OF dn] len m by auto
  qed
qed

lemma utility_loop_initialize:
  assumes "length emb = dimension (initialize_mappings ps)"
    and "\<forall>u \<in> utility_name ` set ps. scan E line (utility_rules ps u) = None"
  shows "\<exists>emb'. utility_loop E (utility_mapping (initialize_mappings ps)) line
                  (patterns_by_utility (initialize_mappings ps)) emb = Inr emb' \<and>
           length emb' = length emb \<and>
           (\<forall>i < length emb. emb' ! i = emb ! i +
              (if counts_error E line (utility_rules ps (sorted_list_of_set (utility_name ` set ps) ! i))
               then 1 else 0))"
proof -
  let ?names = "sorted_list_of_set (utility_name ` set ps)"
  let ?m = "zip ?names [0..<length ?names]"
  let ?gs = "group_patterns ps"
  have m: "utility_mapping (initialize_mappings ps) = ?m"
    and gs: "patterns_by_utility (initialize_mappings ps) = ?gs"
    by (simp_all add: initialize_mappings_def Let_def names_sorted_keys group_patterns_length)
  have len: "length emb = length ?names"
    using assms(1) by (simp add: dimension_def m)
  have dn: "distinct ?names" by simp
  have sn: "set ?names = utility_name ` set ps" by simp
  have pre: "\<forall>(u, pats) \<in> set ?gs. \<exists>i. map_of ?m u = Some i \<and> i < length emb"
    using initialize_lookup[OF assms(1)] m by simp
  have quiet: "\<forall>(u, pats) \<in> set ?gs. scan E line pats = None"
    using assms(2) by (simp only: groups_quiet_iff)
  from utility_loop_eq[OF pre quiet] obtain emb' where
    e: "utility_loop E ?m line ?gs emb = Inr emb'" "length emb' = length emb"
       "\<forall>i < length emb. emb' ! i = emb ! i +
              int (length (filter (\<lambda>(u, pats). map_of ?m u = Some i \<and> counts_error E line pats) ?gs))"
    by blast
  have "\<forall>i < length emb. emb' ! i = emb ! i +
              (if counts_error E line (utility_rules ps (?names ! i)) then 1 else 0)"
  proof (intro allI impI)
    fix i assume i: "i < length emb"
    then have "?names ! i \<in> utility_name ` set ps" using len sn nth_mem by metis
    then have mo: "map_of ?gs (?names ! i) = Some (utility_rules ps (?names ! i))"
      by (simp add: group_patterns_map_of)
    have "filter (\<lambda>(u, pats). map_of ?m u = Some i \<and> counts_error E line pats) ?gs
        = filter (\<lambda>(u, pats). u = ?names ! i \<and> counts_error E line pats) ?gs"
      using index_lookup[OF dn] i len by (intro filter_cong) auto
    also have "\<dots> = (if counts_error E line (utility_rules ps (?names ! i))
                     then [(?names ! i, utility_rules ps (?names ! i))] else [])"
      by (rule filter_key_distinct[OF group_patterns_keys_distinct mo])
    finally show "emb' ! i = emb ! i +
              (if counts_error E line (utility_rules ps (?names ! i)) then 1 else 0)"
      using e(3) i by simp
  qed
  then show ?thesis using e(1,2) m gs by auto
qed

lemma line_loop_initialize:
  assumes "length emb = dimension (initialize_mappings ps)"
    and "\<forall>l \<in> set lines. strip l \<noteq> [] \<longrightarrow>
           (\<forall>u \<in> utility_name ` set ps. scan E l (utility_rules ps u) = None)"
  shows "\<exists>emb'. line_loop E (initialize_mappings ps) lines emb = Inr emb' \<and>
           length emb' = length emb \<and>
           (\<forall>i < length emb. emb' ! i = emb ! i +
              int (error_lines E ps (sorted_list_of_set (utility_name ` set ps) ! i) lines))"
  using assms
proof (induction lines arbitrary: emb)
  case Nil
  then show ?case by (simp add: error_lines_def)
next
  case (Cons l lines)
  have rest: "\<forall>l \<in> set lines. strip l \<noteq> [] \<longrightarrow>
           (\<forall>u \<in> utility_name ` set ps. scan E l (utility_rules ps u) = None)"
    using Cons.prems(2) by simp
  show ?case
  proof (cases "strip l = []")
    case True
    with Cons.IH[OF Cons.prems(1) rest] show ?thesis by (simp add: error_lines_def)
  next
    case False
    then have quiet: "\<forall>u \<in> utility_name ` set ps. scan E l (utility_rules ps u) = None"
      using Cons.prems(2) by simp
    from utility_loop_initialize[OF Cons.prems(1) quiet] obtain emb1 where
      e1: "utility_loop E (utility_mapping (initialize_mappings ps)) l
                  (patterns_by_utility (initialize_mappings ps)) emb = Inr emb1"
          "length emb1 = length emb"
          "\<forall>i < length emb. emb1 ! i = emb ! i +
              (if counts_error E l (utility_rules ps (sorted_list_of_set (utility_name ` set ps) ! i))
               then 1 else 0)"
      by blast
    have "length emb1 = dimension (initialize_mappings ps)" using e1(2) Cons.prems(1) by simp
    from Cons.IH[OF this rest] obtain emb' where
      e2: "line_loop E (initialize_mappings ps) lines emb1 = Inr emb'"
          "length emb' = length emb1"
          "\<forall>i < length emb1. emb' ! i = emb1 ! i +
              int (error_lines E ps (sorted_list_of_set (utility_name ` set ps) ! i) lines)"
      by blast
    have "line_loop E (initialize_mappings ps) (l # lines) emb = Inr emb'"
      using False e1(1) e2(1) by simp
    moreover have "length emb' = length emb" using e1(2) e2(2) by simp
    moreover have "\<forall>i < length emb. emb' ! i = emb ! i +
              int (error_lines E ps (sorted_list_of_set (utility_name ` set ps) ! i) (l # lines))"
      using e1(2,3) e2(3) False by (auto simp: error_lines_def)
    ultimately show ?thesis by blast
  qed
qed

lemma line_loop_returns:
  "line_loop E g lines emb = Inr emb' \<Longrightarrow>
     \<forall>l \<in> set lines. strip l \<noteq> [] \<longrightarrow>
        (\<forall>(u, pats) \<in> set (patterns_by_utility g). scan E l pats = None)"
proof (induction lines arbitrary: emb)
  case Nil
  then show ?case by simp
next
  case (Cons l lines)
  show ?case
  proof (cases "strip l = []")
    case True
    then show ?thesis using Cons by simp
  next
    case False
    from Cons.prems False obtain emb1 where
      s: "utility_loop E (utility_mapping g) l (patterns_by_utility g) emb = Inr emb1"
         "line_loop E g lines emb1 = Inr emb'"
      by (auto split: sum.splits)
    from utility_loop_returns[OF s(1)] Cons.IH[OF s(2)] show ?thesis by simp
  qed
qed

lemma line_loop_Inl:
  assumes "length emb = dimension (initialize_mappings ps)"
    and "line_loop E (initialize_mappings ps) lines emb = Inl e"
  shows "\<exists>l \<in> set lines. strip l \<noteq> [] \<and>
           (\<exists>u \<in> utility_name ` set ps. scan E l (utility_rules ps u) = Some e)"
  using assms
proof (induction lines arbitrary: emb)
  case Nil
  then show ?case by simp
next
  case (Cons l lines)
  let ?g = "initialize_mappings ps"
  show ?case
  proof (cases "strip l = []")
    case True
    then have "line_loop E ?g lines emb = Inl e" using Cons.prems(2) by simp
    from Cons.IH[OF Cons.prems(1) this] show ?thesis by auto
  next
    case False
    show ?thesis
    proof (cases "utility_loop E (utility_mapping ?g) l (patterns_by_utility ?g) emb")
      case (Inl e')
      then have "e' = e" using Cons.prems(2) False by simp
      then have "\<exists>(u, pats) \<in> set (group_patterns ps). scan E l pats = Some e"
        using utility_loop_Inl[OF initialize_lookup[OF Cons.prems(1)], of E l e] Inl
        by (simp add: patterns_by_utility_initialize)
      then have "\<exists>u \<in> utility_name ` set ps. scan E l (utility_rules ps u) = Some e"
        by (auto simp: group_patterns_member)
      then show ?thesis using False by auto
    next
      case (Inr emb1)
      from utility_loop_returns[OF Inr]
      have "\<forall>u \<in> utility_name ` set ps. scan E l (utility_rules ps u) = None"
        by (simp only: patterns_by_utility_initialize groups_quiet_iff)
      from utility_loop_initialize[OF Cons.prems(1) this] Inr
      have "length emb1 = dimension ?g" using Cons.prems(1) by auto
      moreover have "line_loop E ?g lines emb1 = Inl e" using Cons.prems(2) False Inr by simp
      ultimately show ?thesis using Cons.IH[of emb1] by auto
    qed
  qed
qed

lemma generate_embedding_eq:
  assumes "scanned_quietly E ps text"
  shows "generate_embedding E (initialize_mappings ps) text =
     Inr (map (\<lambda>u. int (error_lines E ps u (splitlines text)))
              (sorted_list_of_set (utility_name ` set ps)))"
proof -
  let ?g = "initialize_mappings ps"
  let ?names = "sorted_list_of_set (utility_name ` set ps)"
  have len: "length (replicate (dimension ?g) (0::int)) = dimension ?g" by simp
  have quiet: "\<forall>l \<in> set (splitlines text). strip l \<noteq> [] \<longrightarrow>
           (\<forall>u \<in> utility_name ` set ps. scan E l (utility_rules ps u) = None)"
    using assms by (simp add: scanned_quietly_def)
  from line_loop_initialize[OF len quiet] obtain emb' where
    e: "line_loop E ?g (splitlines text) (replicate (dimension ?g) 0) = Inr emb'"
       "length emb' = dimension ?g"
       "\<forall>i < dimension ?g. emb' ! i =
              int (error_lines E ps (?names ! i) (splitlines text))"
    by auto
  have dim: "dimension ?g = length ?names"
    by (simp add: dimension_initialize)
  have "emb' = map (\<lambda>u. int (error_lines E ps u (splitlines text))) ?names"
    by (rule nth_equalityI) (use e(2,3) dim in auto)
  then show ?thesis using e(1) by (simp add: generate_embedding_def)
qed

lemma generate_embedding_returns:
  assumes "generate_embedding E (initialize_mappings ps) text = Inr emb"
  shows "scanned_quietly E ps text"
  using line_loop_returns[OF assms[unfolded generate_embedding_def]]
  unfolding scanned_quietly_def patterns_by_utility_initialize groups_quiet_iff .

lemma generate_embedding_returns_iff:
  "(\<exists>emb. generate_embedding E (initialize_mappings ps) text = Inr emb) = scanned_quietly E ps text"
  using generate_embedding_returns generate_embedding_eq by blast

lemma generate_embedding_Inr:
  assumes "generate_embedding E (initialize_mappings ps) text = Inr emb"
  shows "emb = map (\<lambda>u. int (error_lines E ps u (splitlines text)))
              (sorted_list_of_set (utility_name ` set ps))"
  using generate_embedding_eq[OF generate_embedding_returns[OF assms]] assms by simp

lemma generate_embedding_Inl:
  assumes "generate_embedding E (initialize_mappings ps) text = Inl e"
  shows "\<exists>l \<in> set (splitlines text). strip l \<noteq> [] \<and>
           (\<exists>u \<in> utility_name ` set ps. scan E l (utility_rules ps u) = Some e)"
  using line_loop_Inl[of "replicate (dimension (initialize_mappings ps)) 0" ps E "splitlines text" e]
    assms by (simp add: generate_embedding_def)

lemma scanned_quietly_safe:
  assumes "\<forall>p \<in> set ps. \<not> raises E (regex p)"
  shows "scanned_quietly E ps text"
proof -
  have "scan E l (utility_rules ps u) = None" for l u
    by (rule scan_safe) (use assms in \<open>auto simp: utility_rules_def\<close>)
  then show ?thesis by (simp add: scanned_quietly_def)
qed

section \<open>The utility index\<close>

lemma utility_mapping_initialize:
  "utility_mapping (initialize_mappings ps) =
     zip (sorted_list_of_set (utility_name ` set ps)) [0..<card (utility_name ` set ps)]"
  by (simp add: initialize_mappings_def Let_def names_sorted_keys group_patterns_length)

lemma utility_mapping_lookup:
  "(map_of (utility_mapping (initialize_mappings ps)) u = Some i) =
     (i < card (utility_name ` set ps) \<and> sorted_list_of_set (utility_name ` set ps) ! i = u)"
  using index_lookup[of "sorted_list_of_set (utility_name ` set ps)" u i]
  by (simp add: utility_mapping_initialize)

lemma gcc_make_npm: "sorted_list_of_set {''gcc'', ''make'', ''npm''} = [''gcc'', ''make'', ''npm'']"
proof -
  have "sorted_wrt (<) [''gcc'', ''make'', ''npm''] \<and> set [''gcc'', ''make'', ''npm''] = {''gcc'', ''make'', ''npm''}
        \<and> length [''gcc'', ''make'', ''npm''] = card {''gcc'', ''make'', ''npm''}"
    by (simp add: less_char_def)
  then show ?thesis
    using sorted_list_of_set_unique[of "{''gcc'', ''make'', ''npm''}" "[''gcc'', ''make'', ''npm'']"]
    by blast
qed

text \<open>
  Claim C5. For every snapshot the utility index pairs the distinct utility names, sorted
  lexicographically, with the coordinates \<open>0, 1, ..., N - 1\<close> in that order, where the
  dimension \<open>N\<close> is the number of distinct names: the lookup is a bijection from the names
  onto the coordinates, and it preserves the order. A snapshot whose utilities are gcc, make
  and npm has the index gcc 0, make 1, npm 2 and dimension 3.
\<close>

theorem utility_index_sorted_bijection:
  "utility_mapping (initialize_mappings ps) =
     zip (sorted_list_of_set (utility_name ` set ps)) [0..<card (utility_name ` set ps)]
   \<and> dimension (initialize_mappings ps) = card (utility_name ` set ps)
   \<and> bij_betw (map_of (utility_mapping (initialize_mappings ps))) (utility_name ` set ps)
        (Some ` {0..<dimension (initialize_mappings ps)})
   \<and> (\<forall>u v i j. map_of (utility_mapping (initialize_mappings ps)) u = Some i \<and>
                 map_of (utility_mapping (initialize_mappings ps)) v = Some j
                 \<longrightarrow> (u < v) = (i < j))
   \<and> (utility_name ` set ps = {''gcc'', ''make'', ''npm''}
        \<longrightarrow> utility_mapping (initialize_mappings ps) = [(''gcc'', 0), (''make'', 1), (''npm'', 2)]
            \<and> dimension (initialize_mappings ps) = 3)"
proof -
  let ?g = "initialize_mappings ps"
  let ?U = "utility_name ` set ps"
  let ?names = "sorted_list_of_set ?U"
  have len: "length ?names = card ?U" by simp
  have dim: "dimension ?g = card ?U" by (rule dimension_initialize)
  have look: "\<And>u i. (map_of (utility_mapping ?g) u = Some i) = (i < card ?U \<and> ?names ! i = u)"
    by (rule utility_mapping_lookup)
  have bij: "bij_betw (map_of (utility_mapping ?g)) ?U (Some ` {0..<dimension ?g})"
    unfolding bij_betw_def
  proof
    show "inj_on (map_of (utility_mapping ?g)) ?U"
    proof (rule inj_onI)
      fix u v assume u: "u \<in> ?U" and v: "v \<in> ?U"
        and eq: "map_of (utility_mapping ?g) u = map_of (utility_mapping ?g) v"
      from u have "u \<in> set ?names" by simp
      then obtain i where "i < length ?names" "?names ! i = u" by (metis in_set_conv_nth)
      then have "map_of (utility_mapping ?g) u = Some i" using look len by simp
      then have "map_of (utility_mapping ?g) v = Some i" using eq by simp
      then show "u = v" using look \<open>?names ! i = u\<close> by simp
    qed
    show "map_of (utility_mapping ?g) ` ?U = Some ` {0..<dimension ?g}"
    proof (intro set_eqI iffI)
      fix x assume "x \<in> map_of (utility_mapping ?g) ` ?U"
      then obtain u where u: "u \<in> ?U" "x = map_of (utility_mapping ?g) u" by blast
      from u(1) have "u \<in> set ?names" by simp
      then obtain i where "i < length ?names" "?names ! i = u" by (metis in_set_conv_nth)
      then have "x = Some i \<and> i < dimension ?g" using look len dim u(2) by simp
      then show "x \<in> Some ` {0..<dimension ?g}" by simp
    next
      fix x assume "x \<in> Some ` {0..<dimension ?g}"
      then obtain i where i: "x = Some i" "i < card ?U" using dim by auto
      then have "?names ! i \<in> set ?names" using len nth_mem by metis
      then have "?names ! i \<in> ?U" by simp
      moreover have "map_of (utility_mapping ?g) (?names ! i) = Some i" using look i by simp
      ultimately show "x \<in> map_of (utility_mapping ?g) ` ?U" using i(1) by force
    qed
  qed
  have ord: "(u < v) = (i < j)"
    if "map_of (utility_mapping ?g) u = Some i \<and> map_of (utility_mapping ?g) v = Some j" for u v i j
  proof -
    from that have i: "i < length ?names" "?names ! i = u" and j: "j < length ?names" "?names ! j = v"
      using look len by auto
    have ss: "sorted_wrt (<) ?names" by simp
    have up: "\<And>a b. a < b \<Longrightarrow> b < length ?names \<Longrightarrow> ?names ! a < ?names ! b"
      using ss by (simp add: sorted_wrt_iff_nth_less)
    show ?thesis
    proof
      assume "u < v"
      show "i < j"
      proof (rule ccontr)
        assume "\<not> i < j"
        then have "j = i \<or> j < i" by auto
        then show False using up[of j i] i j \<open>u < v\<close> by auto
      qed
    next
      assume "i < j" then show "u < v" using up[of i j] i j by simp
    qed
  qed
  have ex: "utility_mapping ?g = [(''gcc'', 0), (''make'', 1), (''npm'', 2)] \<and> dimension ?g = 3"
    if "?U = {''gcc'', ''make'', ''npm''}"
    using that by (simp add: utility_mapping_initialize dim gcc_make_npm upt_rec)
  show ?thesis using utility_mapping_initialize[of ps] dim bij ord ex by blast
qed

theorem utility_index_sorted_bijection_witness:
  "utility_name ` set toolchain_snapshot = {''gcc'', ''make'', ''npm''}
   \<and> utility_mapping (initialize_mappings toolchain_snapshot) = [(''gcc'', 0), (''make'', 1), (''npm'', 2)]
   \<and> dimension (initialize_mappings toolchain_snapshot) = 3"
proof -
  have h: "utility_name ` set toolchain_snapshot = {''gcc'', ''make'', ''npm''}"
    by (auto simp: toolchain_snapshot_def)
  show ?thesis
    using utility_index_sorted_bijection[of toolchain_snapshot] h by blast
qed

section \<open>The embedding counts first matches per utility\<close>

lemma counts_error_iff:
  "counts_error E l pats =
     (\<exists>k < length pats. re_match E (fst (pats ! k)) l = Inr True \<and> snd (pats ! k) \<and>
        (\<forall>j < k. re_match E (fst (pats ! j)) l \<noteq> Inr True))"
proof (cases "first_match E l pats")
  case None
  then have "\<forall>x \<in> set pats. re_match E (fst x) l \<noteq> Inr True"
    by (auto simp: first_match_def find_None_iff)
  then show ?thesis using None by (auto simp: counts_error_def)
next
  case (Some a)
  obtain rgx err where a: "a = (rgx, err)" by (cases a)
  have "find (\<lambda>x. re_match E (fst x) l = Inr True) pats = Some a"
    using Some by (simp add: first_match_def case_prod_unfold)
  then obtain k where k0: "k < length pats" "re_match E (fst (pats ! k)) l = Inr True"
      "a = pats ! k" "\<forall>j < k. re_match E (fst (pats ! j)) l \<noteq> Inr True"
    unfolding find_Some_iff by blast
  have k: "k < length pats" "pats ! k = (rgx, err)"
      "re_match E rgx l = Inr True" "\<forall>j < k. re_match E (fst (pats ! j)) l \<noteq> Inr True"
    using k0 a by (auto dest: sym[of "(rgx, err)"])
  have "counts_error E l pats = err" using Some a by (simp add: counts_error_def)
  moreover have "(\<exists>k' < length pats. re_match E (fst (pats ! k')) l = Inr True \<and> snd (pats ! k') \<and>
        (\<forall>j < k'. re_match E (fst (pats ! j)) l \<noteq> Inr True)) = err"
  proof
    assume "\<exists>k' < length pats. re_match E (fst (pats ! k')) l = Inr True \<and> snd (pats ! k') \<and>
        (\<forall>j < k'. re_match E (fst (pats ! j)) l \<noteq> Inr True)"
    then obtain k' where k': "k' < length pats" "re_match E (fst (pats ! k')) l = Inr True"
        "snd (pats ! k')" "\<forall>j < k'. re_match E (fst (pats ! j)) l \<noteq> Inr True" by blast
    have "k' = k"
    proof (rule ccontr)
      assume "k' \<noteq> k"
      then have "k' < k \<or> k < k'" by auto
      then show False using k k' by auto
    qed
    then show err using k(2) k'(3) by simp
  next
    assume err
    then show "\<exists>k' < length pats. re_match E (fst (pats ! k')) l = Inr True \<and> snd (pats ! k') \<and>
        (\<forall>j < k'. re_match E (fst (pats ! j)) l \<noteq> Inr True)"
      using k by (intro exI[of _ k]) simp
  qed
  ultimately show ?thesis by simp
qed

text \<open>
  Claim C1. For a generator built from a snapshot, \<open>generate_embedding\<close> returns exactly when
  the log is scanned quietly, which it is whenever the library raises nothing but
  \<^verbatim>\<open>re.error\<close> on the regexes of the snapshot; otherwise it ends with the exception that ended
  the scan of some utility's list on some non-blank line. A returned embedding has the
  dimension of the index, and its coordinate for utility \<open>u\<close> is the number of non-blank
  lines whose first matching pattern within the pattern list of \<open>u\<close> alone is an error
  pattern (\<open>counts_error\<close>: some pattern of the list matches and is an error pattern, and no
  earlier pattern of the same list matches). Patterns of other utilities play no part, so a
  line whose first match is an error pattern in the lists of two distinct utilities
  increments both coordinates.
\<close>

theorem embedding_counts_first_match_per_utility:
  "((\<exists>emb. generate_embedding E (initialize_mappings ps) text = Inr emb)
      = scanned_quietly E ps text)
   \<and> ((\<forall>p \<in> set ps. \<not> raises E (regex p)) \<longrightarrow> scanned_quietly E ps text)
   \<and> (\<forall>e. generate_embedding E (initialize_mappings ps) text = Inl e \<longrightarrow>
         (\<exists>l \<in> set (splitlines text). strip l \<noteq> [] \<and>
            (\<exists>u \<in> utility_name ` set ps. scan E l (utility_rules ps u) = Some e)))
   \<and> (\<forall>emb. generate_embedding E (initialize_mappings ps) text = Inr emb \<longrightarrow>
         length emb = dimension (initialize_mappings ps)
       \<and> (\<forall>u i. map_of (utility_mapping (initialize_mappings ps)) u = Some i \<longrightarrow>
             i < length emb \<and>
             emb ! i = int (length (filter
                (\<lambda>l. strip l \<noteq> [] \<and> counts_error E l (utility_rules ps u)) (splitlines text))))
       \<and> (\<forall>l u v i j. splitlines text = [l] \<and> strip l \<noteq> [] \<and> u \<noteq> v \<and>
             map_of (utility_mapping (initialize_mappings ps)) u = Some i \<and>
             map_of (utility_mapping (initialize_mappings ps)) v = Some j \<and>
             counts_error E l (utility_rules ps u) \<and> counts_error E l (utility_rules ps v)
             \<longrightarrow> i \<noteq> j \<and> emb ! i = 1 \<and> emb ! j = 1))
   \<and> (\<forall>l pats. counts_error E l pats =
         (\<exists>k < length pats. re_match E (fst (pats ! k)) l = Inr True \<and> snd (pats ! k) \<and>
            (\<forall>j < k. re_match E (fst (pats ! j)) l \<noteq> Inr True)))"
proof -
  let ?g = "initialize_mappings ps"
  let ?U = "utility_name ` set ps"
  let ?names = "sorted_list_of_set ?U"
  have ret: "(\<exists>emb. generate_embedding E ?g text = Inr emb) = scanned_quietly E ps text"
    by (rule generate_embedding_returns_iff)
  have safe: "(\<forall>p \<in> set ps. \<not> raises E (regex p)) \<longrightarrow> scanned_quietly E ps text"
    using scanned_quietly_safe by blast
  have exn: "\<forall>e. generate_embedding E ?g text = Inl e \<longrightarrow>
         (\<exists>l \<in> set (splitlines text). strip l \<noteq> [] \<and>
            (\<exists>u \<in> utility_name ` set ps. scan E l (utility_rules ps u) = Some e))"
    using generate_embedding_Inl by blast
  have val: "length emb = dimension ?g
       \<and> (\<forall>u i. map_of (utility_mapping ?g) u = Some i \<longrightarrow>
             i < length emb \<and>
             emb ! i = int (length (filter
                (\<lambda>l. strip l \<noteq> [] \<and> counts_error E l (utility_rules ps u)) (splitlines text))))
       \<and> (\<forall>l u v i j. splitlines text = [l] \<and> strip l \<noteq> [] \<and> u \<noteq> v \<and>
             map_of (utility_mapping ?g) u = Some i \<and> map_of (utility_mapping ?g) v = Some j \<and>
             counts_error E l (utility_rules ps u) \<and> counts_error E l (utility_rules ps v)
             \<longrightarrow> i \<noteq> j \<and> emb ! i = 1 \<and> emb ! j = 1)"
    if gen: "generate_embedding E ?g text = Inr emb" for emb
  proof -
    have emb: "emb = map (\<lambda>u. int (error_lines E ps u (splitlines text))) ?names"
      by (rule generate_embedding_Inr[OF gen])
    have len: "length emb = dimension ?g"
      by (simp add: emb dimension_initialize)
    have coord: "i < length emb \<and> emb ! i = int (length (filter
              (\<lambda>l. strip l \<noteq> [] \<and> counts_error E l (utility_rules ps u)) (splitlines text)))"
      if "map_of (utility_mapping ?g) u = Some i" for u i
    proof -
      from that have i: "i < card ?U" "?names ! i = u" by (simp_all add: utility_mapping_lookup)
      then show ?thesis by (simp add: emb error_lines_def)
    qed
    have both: "i \<noteq> j \<and> emb ! i = 1 \<and> emb ! j = 1"
      if "splitlines text = [l] \<and> strip l \<noteq> [] \<and> u \<noteq> v \<and>
             map_of (utility_mapping ?g) u = Some i \<and> map_of (utility_mapping ?g) v = Some j \<and>
             counts_error E l (utility_rules ps u) \<and> counts_error E l (utility_rules ps v)"
      for l u v i j
    proof -
      from that have "i \<noteq> j" by (auto simp: utility_mapping_lookup)
      moreover have "emb ! i = 1" using coord[of u i] that by simp
      moreover have "emb ! j = 1" using coord[of v j] that by simp
      ultimately show ?thesis by simp
    qed
    show ?thesis using len coord both by blast
  qed
  then have val': "\<forall>emb. generate_embedding E ?g text = Inr emb \<longrightarrow>
         length emb = dimension ?g
       \<and> (\<forall>u i. map_of (utility_mapping ?g) u = Some i \<longrightarrow>
             i < length emb \<and>
             emb ! i = int (length (filter
                (\<lambda>l. strip l \<noteq> [] \<and> counts_error E l (utility_rules ps u)) (splitlines text))))
       \<and> (\<forall>l u v i j. splitlines text = [l] \<and> strip l \<noteq> [] \<and> u \<noteq> v \<and>
             map_of (utility_mapping ?g) u = Some i \<and> map_of (utility_mapping ?g) v = Some j \<and>
             counts_error E l (utility_rules ps u) \<and> counts_error E l (utility_rules ps v)
             \<longrightarrow> i \<noteq> j \<and> emb ! i = 1 \<and> emb ! j = 1)"
    by (intro allI impI)
  have ce: "\<forall>l pats. counts_error E l pats =
         (\<exists>k < length pats. re_match E (fst (pats ! k)) l = Inr True \<and> snd (pats ! k) \<and>
            (\<forall>j < k. re_match E (fst (pats ! j)) l \<noteq> Inr True))"
    using counts_error_iff[of E] by (intro allI)
  show ?thesis
    apply (intro conjI)
        apply (rule ret)
       apply (rule safe)
      apply (rule exn)
     apply (rule val')
    apply (rule ce)
    done
qed

theorem embedding_counts_first_match_per_utility_witness:
  "splitlines ''abc'' = [''abc''] \<and> strip ''abc'' \<noteq> []
   \<and> \<not> raises (py_re no_other) ''a'' \<and> \<not> raises (py_re no_other) ''ab''
   \<and> scanned_quietly (py_re no_other) overlap_snapshot ''abc''
   \<and> map_of (utility_mapping (initialize_mappings overlap_snapshot)) ''alpha'' = Some 0
   \<and> map_of (utility_mapping (initialize_mappings overlap_snapshot)) ''beta'' = Some 1
   \<and> counts_error (py_re no_other) ''abc'' (utility_rules overlap_snapshot ''alpha'')
   \<and> counts_error (py_re no_other) ''abc'' (utility_rules overlap_snapshot ''beta'')
   \<and> generate_embedding (py_re no_other) (initialize_mappings overlap_snapshot) ''abc'' = Inr [1, 1]"
proof -
  let ?E = "py_re no_other"
  let ?g = "initialize_mappings overlap_snapshot"
  have s: "splitlines ''abc'' = [''abc'']" by code_simp
  have b: "strip ''abc'' \<noteq> []" by code_simp
  have i: "map_of (utility_mapping ?g) ''alpha'' = Some 0" by code_simp
  have j: "map_of (utility_mapping ?g) ''beta'' = Some 1" by code_simp
  have ci: "counts_error ?E ''abc'' (utility_rules overlap_snapshot ''alpha'')" by code_simp
  have cj: "counts_error ?E ''abc'' (utility_rules overlap_snapshot ''beta'')" by code_simp
  have d: "dimension ?g = 2" by code_simp
  have ne: "''alpha'' \<noteq> ''beta''" by simp
  have ca: "py_compile ''a'' = Compiled (Lit CHR ''a'')" by code_simp
  have cb: "py_compile ''ab'' = Compiled (Seq (Lit CHR ''a'') (Lit CHR ''b''))" by code_simp
  have ra: "\<not> raises ?E ''a''" and rb: "\<not> raises ?E ''ab''"
    by (simp_all add: raises_def py_re_def ca cb)
  have safe: "\<forall>p \<in> set overlap_snapshot. \<not> raises ?E (regex p)"
    using ra rb by (simp add: overlap_snapshot_def)
  note inst = embedding_counts_first_match_per_utility[of ?E overlap_snapshot "''abc''"]
  have q: "scanned_quietly ?E overlap_snapshot ''abc''"
    using inst[THEN conjunct2, THEN conjunct1] safe by simp
  then obtain emb where emb: "generate_embedding ?E ?g ''abc'' = Inr emb"
    using inst[THEN conjunct1] by blast
  note r = inst[THEN conjunct2, THEN conjunct2, THEN conjunct2, THEN conjunct1, rule_format, OF emb]
  have len: "length emb = dimension ?g" using r by simp
  have "emb ! 0 = 1 \<and> emb ! 1 = 1"
    using r[THEN conjunct2, THEN conjunct2, rule_format,
            of "''abc''" "''alpha''" "''beta''" 0 1] s b ne i j ci cj by simp
  moreover have "length emb = 2" using len d by simp
  ultimately have "emb = [1, 1]"
    by (cases emb; cases "tl emb") auto
  then show ?thesis using s b ra rb q i j ci cj emb by simp
qed

section \<open>Additivity over lines\<close>

lemma error_lines_append:
  "error_lines E ps u (xs @ ys) = error_lines E ps u xs + error_lines E ps u ys"
  by (simp add: error_lines_def)

lemma error_lines_blank:
  "\<forall>l \<in> set xs. strip l = [] \<Longrightarrow> error_lines E ps u xs = 0"
  by (simp add: error_lines_def filter_empty_conv)

lemma splitlines_line:
  assumes "l \<in> set (splitlines text)"
  shows "splitlines l = (if l = [] then [] else [l])"
proof -
  have "\<forall>c \<in> set l. \<not> is_linebreak c"
    using splitlines_from_no_linebreak[of l "[]" "text"] assms by (simp add: splitlines_def)
  then show ?thesis
    using splitlines_from_single[of l "[]"] by (simp add: splitlines_def)
qed

lemma error_lines_splitlines_line:
  assumes "l \<in> set (splitlines text)"
  shows "error_lines E ps u (splitlines l) = error_lines E ps u [l]"
proof (cases "l = []")
  case True
  then show ?thesis
    by (simp add: splitlines_def error_lines_def strip_def)
next
  case False
  then show ?thesis using splitlines_line[OF assms] by simp
qed

lemma vec_add_maps:
  "vec_add (map f xs) (map g xs) = map (\<lambda>x. f x + g x) xs"
  by (induction xs) (simp_all add: vec_add_def)

lemma sum_of_line_vectors:
  "foldr vec_add (map (\<lambda>l. map (\<lambda>u. int (error_lines E ps u [l])) names) lines)
      (replicate (length names) 0)
   = map (\<lambda>u. int (error_lines E ps u lines)) names"
proof (induction lines)
  case Nil
  then show ?case by (simp add: error_lines_def map_replicate_const)
next
  case (Cons l lines)
  have "error_lines E ps u (l # lines) = error_lines E ps u [l] + error_lines E ps u lines" for u
    using error_lines_append[of E ps u "[l]" lines] by simp
  then show ?case using Cons by (simp add: vec_add_maps)
qed

lemma splitlines_join:
  "\<exists>e. splitlines (a @ [CHR 0x0A] @ b) = splitlines a @ e @ splitlines b \<and> set e \<subseteq> {[]}"
proof -
  obtain e where e: "splitlines_from [] (a @ [CHR 0x0A]) = splitlines_from [] a @ e" "set e \<subseteq> {[]}"
    using splitlines_from_snoc_lf[of "[]" a] by blast
  have "splitlines (a @ [CHR 0x0A] @ b) = splitlines_from [] (a @ [CHR 0x0A]) @ splitlines_from [] b"
    using splitlines_from_append_lf[of "[]" a b] by (simp add: splitlines_def)
  then show ?thesis using e by (auto simp: splitlines_def)
qed

lemma scanned_quietly_line:
  assumes "scanned_quietly E ps text" and "l \<in> set (splitlines text)"
  shows "scanned_quietly E ps l"
proof (cases "l = []")
  case True
  then show ?thesis by (simp add: scanned_quietly_def splitlines_def)
next
  case False
  then have "splitlines l = [l]" using splitlines_line[OF assms(2)] by simp
  then show ?thesis using assms by (simp add: scanned_quietly_def)
qed

lemma scanned_quietly_join:
  "scanned_quietly E ps (a @ [CHR 0x0A] @ b) = (scanned_quietly E ps a \<and> scanned_quietly E ps b)"
proof -
  obtain e where e: "splitlines (a @ [CHR 0x0A] @ b) = splitlines a @ e @ splitlines b"
      "set e \<subseteq> {[]}"
    using splitlines_join by blast
  have "\<forall>l \<in> set e. strip l = []" using e(2) by (auto simp: strip_def)
  then show ?thesis unfolding scanned_quietly_def e(1) by auto
qed

text \<open>
  Claim C6. For a fixed snapshot and its index, \<open>generate_embedding\<close> returns whenever the
  library raises nothing but \<^verbatim>\<open>re.error\<close> on the regexes of the snapshot. A returned embedding
  of a log is the coordinate-wise sum of the embeddings of its lines, each taken as a log of
  one line (each of which is returned as well), and no coordinate is negative. In
  particular the embedding of two logs joined by a newline is the sum of their embeddings:
  when it is returned so are the two, and when the two are returned so is it.
\<close>

theorem embedding_additive_nonnegative:
  "((\<forall>p \<in> set ps. \<not> raises E (regex p)) \<longrightarrow>
       (\<exists>emb. generate_embedding E (initialize_mappings ps) text = Inr emb))
   \<and> (\<forall>emb. generate_embedding E (initialize_mappings ps) text = Inr emb \<longrightarrow>
         (\<exists>vs. list_all2 (\<lambda>l v. generate_embedding E (initialize_mappings ps) l = Inr v)
                  (splitlines text) vs
              \<and> emb = foldr vec_add vs (replicate (dimension (initialize_mappings ps)) 0))
       \<and> (\<forall>x \<in> set emb. 0 \<le> x)
       \<and> (\<forall>a b. text = a @ [CHR 0x0A] @ b \<longrightarrow>
             (\<exists>va vb. generate_embedding E (initialize_mappings ps) a = Inr va \<and>
                      generate_embedding E (initialize_mappings ps) b = Inr vb \<and>
                      emb = vec_add va vb)))
   \<and> (\<forall>a b va vb. generate_embedding E (initialize_mappings ps) a = Inr va \<and>
                    generate_embedding E (initialize_mappings ps) b = Inr vb \<longrightarrow>
         generate_embedding E (initialize_mappings ps) (a @ [CHR 0x0A] @ b) = Inr (vec_add va vb))"
proof -
  let ?g = "initialize_mappings ps"
  let ?names = "sorted_list_of_set (utility_name ` set ps)"
  let ?vec = "\<lambda>lines. map (\<lambda>u. int (error_lines E ps u lines)) ?names"
  have gen: "generate_embedding E ?g t = Inr (?vec (splitlines t))" if "scanned_quietly E ps t" for t
    by (rule generate_embedding_eq[OF that])
  have ret: "(\<forall>p \<in> set ps. \<not> raises E (regex p)) \<longrightarrow>
       (\<exists>emb. generate_embedding E ?g text = Inr emb)"
    using gen[of "text"] scanned_quietly_safe[of ps E "text"] by blast
  have dim: "dimension ?g = length ?names" by (simp add: dimension_initialize)
  have joined: "?vec (splitlines (a @ [CHR 0x0A] @ b))
                  = vec_add (?vec (splitlines a)) (?vec (splitlines b))" for a b
  proof -
    obtain e where e: "splitlines (a @ [CHR 0x0A] @ b) = splitlines a @ e @ splitlines b"
        "set e \<subseteq> {[]}"
      using splitlines_join by blast
    have "\<forall>l \<in> set e. strip l = []" using e(2) by (auto simp: strip_def)
    then have "error_lines E ps u e = 0" for u by (rule error_lines_blank)
    then show ?thesis
      unfolding e(1) by (simp add: vec_add_maps error_lines_append)
  qed
  have val: "(\<exists>vs. list_all2 (\<lambda>l v. generate_embedding E ?g l = Inr v) (splitlines text) vs
              \<and> emb = foldr vec_add vs (replicate (dimension ?g) 0))
       \<and> (\<forall>x \<in> set emb. 0 \<le> x)
       \<and> (\<forall>a b. text = a @ [CHR 0x0A] @ b \<longrightarrow>
             (\<exists>va vb. generate_embedding E ?g a = Inr va \<and>
                      generate_embedding E ?g b = Inr vb \<and> emb = vec_add va vb))"
    if run: "generate_embedding E ?g text = Inr emb" for emb
  proof -
    have q: "scanned_quietly E ps text" by (rule generate_embedding_returns[OF run])
    have emb: "emb = ?vec (splitlines text)" by (rule generate_embedding_Inr[OF run])
    define vs where "vs = map (\<lambda>l. ?vec [l]) (splitlines text)"
    have each: "list_all2 (\<lambda>l v. generate_embedding E ?g l = Inr v) (splitlines text) vs"
      unfolding vs_def list_all2_map2
    proof (rule list_all2_all_nthI)
      show "length (splitlines text) = length (splitlines text)" by simp
    next
      fix n assume "n < length (splitlines text)"
      then have m: "splitlines text ! n \<in> set (splitlines text)" by simp
      have "scanned_quietly E ps (splitlines text ! n)"
        by (rule scanned_quietly_line[OF q m])
      then show "generate_embedding E ?g (splitlines text ! n) = Inr (?vec [splitlines text ! n])"
        using m by (simp add: gen error_lines_splitlines_line)
    qed
    have total: "emb = foldr vec_add vs (replicate (dimension ?g) 0)"
      unfolding vs_def dim emb by (rule sum_of_line_vectors[symmetric])
    have nonneg: "\<forall>x \<in> set emb. 0 \<le> x" unfolding emb by auto
    have cat: "\<exists>va vb. generate_embedding E ?g a = Inr va \<and> generate_embedding E ?g b = Inr vb \<and>
                  emb = vec_add va vb"
      if t: "text = a @ [CHR 0x0A] @ b" for a b
    proof -
      have "scanned_quietly E ps a" "scanned_quietly E ps b"
        using q unfolding t scanned_quietly_join by simp_all
      then have "generate_embedding E ?g a = Inr (?vec (splitlines a))"
          "generate_embedding E ?g b = Inr (?vec (splitlines b))"
        by (simp_all add: gen)
      moreover have "emb = vec_add (?vec (splitlines a)) (?vec (splitlines b))"
        unfolding emb t by (rule joined)
      ultimately show ?thesis by blast
    qed
    have ex: "\<exists>vs. list_all2 (\<lambda>l v. generate_embedding E ?g l = Inr v) (splitlines text) vs
              \<and> emb = foldr vec_add vs (replicate (dimension ?g) 0)"
      using each total by (intro exI[of _ vs]) simp
    have cat': "\<forall>a b. text = a @ [CHR 0x0A] @ b \<longrightarrow>
             (\<exists>va vb. generate_embedding E ?g a = Inr va \<and>
                      generate_embedding E ?g b = Inr vb \<and> emb = vec_add va vb)"
      using cat by (intro allI impI)
    show ?thesis using ex nonneg cat' by (intro conjI)
  qed
  then have val': "\<forall>emb. generate_embedding E ?g text = Inr emb \<longrightarrow>
         (\<exists>vs. list_all2 (\<lambda>l v. generate_embedding E ?g l = Inr v) (splitlines text) vs
              \<and> emb = foldr vec_add vs (replicate (dimension ?g) 0))
       \<and> (\<forall>x \<in> set emb. 0 \<le> x)
       \<and> (\<forall>a b. text = a @ [CHR 0x0A] @ b \<longrightarrow>
             (\<exists>va vb. generate_embedding E ?g a = Inr va \<and>
                      generate_embedding E ?g b = Inr vb \<and> emb = vec_add va vb))"
    by (intro allI impI)
  have conv: "generate_embedding E ?g (a @ [CHR 0x0A] @ b) = Inr (vec_add va vb)"
    if ab: "generate_embedding E ?g a = Inr va \<and> generate_embedding E ?g b = Inr vb" for a b va vb
  proof -
    from ab have ra: "generate_embedding E ?g a = Inr va" and rb: "generate_embedding E ?g b = Inr vb"
      by simp_all
    have "scanned_quietly E ps (a @ [CHR 0x0A] @ b)"
      unfolding scanned_quietly_join
      using generate_embedding_returns[OF ra] generate_embedding_returns[OF rb] by simp
    then have "generate_embedding E ?g (a @ [CHR 0x0A] @ b) = Inr (?vec (splitlines (a @ [CHR 0x0A] @ b)))"
      by (rule gen)
    then show ?thesis
      unfolding joined generate_embedding_Inr[OF ra, symmetric] generate_embedding_Inr[OF rb, symmetric] .
  qed
  then have conv': "\<forall>a b va vb. generate_embedding E ?g a = Inr va \<and>
                    generate_embedding E ?g b = Inr vb \<longrightarrow>
         generate_embedding E ?g (a @ [CHR 0x0A] @ b) = Inr (vec_add va vb)"
    by (intro allI impI)
  show ?thesis
    apply (intro conjI)
      apply (rule ret)
     apply (rule val')
    apply (rule conv')
    done
qed

theorem embedding_additive_nonnegative_witness:
  "\<not> raises (py_re no_other) ''a'' \<and> \<not> raises (py_re no_other) ''ab''
   \<and> generate_embedding (py_re no_other) (initialize_mappings overlap_snapshot) ''abc'' = Inr [1, 1]
   \<and> generate_embedding (py_re no_other) (initialize_mappings overlap_snapshot) ''xab'' = Inr [0, 0]
   \<and> generate_embedding (py_re no_other) (initialize_mappings overlap_snapshot) (''abc'' @ [CHR 0x0A] @ ''xab'')
       = Inr (vec_add [1, 1] [0, 0])
   \<and> vec_add [1, 1] [0, 0] = [1, 1]"
proof -
  let ?E = "py_re no_other"
  let ?g = "initialize_mappings overlap_snapshot"
  have a: "generate_embedding ?E ?g ''abc'' = Inr [1, 1]" by code_simp
  have b: "generate_embedding ?E ?g ''xab'' = Inr [0, 0]" by code_simp
  have ca: "py_compile ''a'' = Compiled (Lit CHR ''a'')" by code_simp
  have cb: "py_compile ''ab'' = Compiled (Seq (Lit CHR ''a'') (Lit CHR ''b''))" by code_simp
  have ra: "\<not> raises ?E ''a''" and rb: "\<not> raises ?E ''ab''"
    by (simp_all add: raises_def py_re_def ca cb)
  have safe: "\<forall>p \<in> set overlap_snapshot. \<not> raises ?E (regex p)"
    using ra rb by (simp add: overlap_snapshot_def)
  note inst = embedding_additive_nonnegative[of overlap_snapshot ?E "''abc'' @ [CHR 0x0A] @ ''xab''"]
  from inst[THEN conjunct1] safe
  obtain emb where emb: "generate_embedding ?E ?g (''abc'' @ [CHR 0x0A] @ ''xab'') = Inr emb"
    by blast
  note r = inst[THEN conjunct2, THEN conjunct1, rule_format, OF emb]
  from r[THEN conjunct2, THEN conjunct2, rule_format, of "''abc''" "''xab''"]
  obtain va vb where "generate_embedding ?E ?g ''abc'' = Inr va"
      "generate_embedding ?E ?g ''xab'' = Inr vb" "emb = vec_add va vb"
    by auto
  then have "emb = vec_add [1, 1] [0, 0]" using a b by simp
  then show ?thesis using a b ra rb emb by (simp add: vec_add_def)
qed

section \<open>Blank lines\<close>

lemma line_loop_filter:
  "line_loop E g lines emb = line_loop E g (filter (\<lambda>l. strip l \<noteq> []) lines) emb"
proof (induction lines arbitrary: emb)
  case Nil
  then show ?case by simp
next
  case (Cons l lines)
  then show ?case by (cases "strip l = []") (simp_all split: sum.splits)
qed

lemma blank_text_lines:
  assumes "\<forall>c \<in> set w. is_space c" and "l \<in> set (splitlines_from [] (w @ [CHR 0x0A]))"
  shows "strip l = []"
proof -
  have "set l \<subseteq> set (w @ [CHR 0x0A])" using splitlines_from_chars[OF assms(2)] by simp
  moreover have "is_space (CHR 0x0A)" by (simp add: is_space_def)
  ultimately have "\<forall>c \<in> set l. is_space c" using assms(1) by auto
  then show ?thesis by (simp add: strip_empty_iff)
qed

text \<open>
  Claim C7. Lines that are empty after stripping whitespace are skipped: for every generator
  the loop over the lines gives the same result on the lines with the blank ones removed,
  so a blank line put between two runs of lines changes nothing, and a log with a
  whitespace-only line inserted after a newline has the embedding of the log without it.
\<close>

theorem blank_lines_never_counted:
  "line_loop E g lines emb = line_loop E g (filter (\<lambda>l. strip l \<noteq> []) lines) emb
   \<and> (strip w = [] \<longrightarrow> line_loop E g (xs @ [w] @ ys) emb = line_loop E g (xs @ ys) emb)
   \<and> ((\<forall>c \<in> set w. is_space c) \<longrightarrow>
        generate_embedding E g (a @ [CHR 0x0A] @ w @ [CHR 0x0A] @ b)
          = generate_embedding E g (a @ [CHR 0x0A] @ b))"
proof -
  have one: "line_loop E g (xs @ [w] @ ys) emb = line_loop E g (xs @ ys) emb" if "strip w = []"
    using line_loop_filter[of E g "xs @ [w] @ ys" emb] line_loop_filter[of E g "xs @ ys" emb] that
    by simp
  have whole: "generate_embedding E g (a @ [CHR 0x0A] @ w @ [CHR 0x0A] @ b)
          = generate_embedding E g (a @ [CHR 0x0A] @ b)" if wsp: "\<forall>c \<in> set w. is_space c"
  proof -
    let ?head = "splitlines_from [] (a @ [CHR 0x0A])"
    let ?mid = "splitlines_from [] (w @ [CHR 0x0A])"
    have s1: "splitlines (a @ [CHR 0x0A] @ w @ [CHR 0x0A] @ b) = ?head @ ?mid @ splitlines b"
      using splitlines_from_append_lf[of "[]" a "w @ CHR 0x0A # b"]
            splitlines_from_append_lf[of "[]" w b]
      by (simp add: splitlines_def)
    have s2: "splitlines (a @ [CHR 0x0A] @ b) = ?head @ splitlines b"
      using splitlines_from_append_lf[of "[]" a b] by (simp add: splitlines_def)
    have "filter (\<lambda>l. strip l \<noteq> []) ?mid = []"
      using blank_text_lines[OF wsp] by (simp add: filter_empty_conv)
    then have "filter (\<lambda>l. strip l \<noteq> []) (?head @ ?mid @ splitlines b)
             = filter (\<lambda>l. strip l \<noteq> []) (?head @ splitlines b)" by simp
    then show ?thesis
      unfolding generate_embedding_def s1 s2
      using line_loop_filter[of E g "?head @ ?mid @ splitlines b"]
            line_loop_filter[of E g "?head @ splitlines b"] by simp
  qed
  show ?thesis using line_loop_filter[of E g lines emb] one whole by blast
qed

theorem blank_lines_never_counted_witness:
  "strip [CHR 0x20, CHR 0x09] = []
   \<and> generate_embedding (py_re no_other) (initialize_mappings overlap_snapshot)
        (''abc'' @ [CHR 0x0A] @ [CHR 0x20, CHR 0x09] @ [CHR 0x0A] @ ''ab'')
      = generate_embedding (py_re no_other) (initialize_mappings overlap_snapshot) (''abc'' @ [CHR 0x0A] @ ''ab'')
   \<and> generate_embedding (py_re no_other) (initialize_mappings overlap_snapshot) (''abc'' @ [CHR 0x0A] @ ''ab'')
      = Inr [2, 2]"
proof -
  have w: "\<forall>c \<in> set [CHR 0x20, CHR 0x09]. is_space c" by (simp add: is_space_def)
  have s: "strip [CHR 0x20, CHR 0x09] = []" using w by (simp only: strip_empty_iff)
  have v: "generate_embedding (py_re no_other) (initialize_mappings overlap_snapshot) (''abc'' @ [CHR 0x0A] @ ''ab'')
      = Inr [2, 2]" by code_simp
  show ?thesis
    using blank_lines_never_counted[where E = "py_re no_other" and g = "initialize_mappings overlap_snapshot"
        and w = "[CHR 0x20, CHR 0x09]" and a = "''abc''" and b = "''ab''"] w s v
    by blast
qed

section \<open>The state of a run of the oracle-driven parser\<close>

lemma analysis_handlers_no_result: "analysis_handlers e \<noteq> Inr (msgs, Some x)"
  by (simp add: analysis_handlers_def)

lemma analyze_returns_no_error_flag:
  "analyze_line_with_llm E response line = Inr (msgs, Some (rgx, u, err)) \<Longrightarrow> \<not> err"
  by (auto simp: analyze_line_with_llm_def analysis_handlers_def
           split: llm_response.splits option.splits sum.splits bool.splits if_splits)

lemma analyze_validates:
  "analyze_line_with_llm E response line = Inr (msgs, Some (rgx, u, err)) \<Longrightarrow>
     re_match E rgx line = Inr True"
  by (auto simp: analyze_line_with_llm_def analysis_handlers_def
           split: llm_response.splits option.splits sum.splits bool.splits if_splits)

lemma analyze_invalid_regex:
  "re_compile E rgx = Inl ReError \<Longrightarrow>
     analyze_line_with_llm E (JSONObject (Some rgx) uf) line = Inr ([InvalidRegexMessage], None)"
  by (simp add: analyze_line_with_llm_def analysis_handlers_def)

lemma analyze_raising_regex:
  "re_compile E rgx = Inl e \<Longrightarrow>
     analyze_line_with_llm E (JSONObject (Some rgx) uf) line = analysis_handlers e"
  by (simp add: analyze_line_with_llm_def)

lemma analyze_no_match:
  "re_match E rgx line = Inr False \<Longrightarrow>
     analyze_line_with_llm E (JSONObject (Some rgx) uf) line = Inr ([NoMatchMessage], None)"
  by (auto simp: analyze_line_with_llm_def re_match_def split: sum.splits)

lemma re_match_compiles: "re_match E rgx line = Inr b \<Longrightarrow> \<exists>r. re_compile E rgx = Inr r"
  by (auto simp: re_match_def split: sum.splits)

lemma compiles_not_raises: "re_compile E rgx = Inr r \<Longrightarrow> \<not> raises E rgx"
  by (simp add: raises_def)

lemma patterns_result:
  "patterns self = (ps, self1) \<Longrightarrow>
     self1 = self\<lparr>patterns_cache := Some ps\<rparr> \<and>
     (patterns_cache self = None \<or> patterns_cache self = Some ps)"
  by (auto simp: patterns_def Let_def split: option.splits)

lemma update_patterns_eq:
  "update_patterns self rgx u e =
     (self\<lparr>pattern_store := pattern_store self @
               [\<lparr>pattern_id = next_id (pattern_store self), regex = rgx, utility_name = u,
                 is_error = e, need_reviewing = True\<rparr>],
            patterns_cache := map_option
               (\<lambda>c. c @ [\<lparr>pattern_id = next_id (pattern_store self), regex = rgx, utility_name = u,
                             is_error = e, need_reviewing = True\<rparr>]) (patterns_cache self)\<rparr>,
      next_id (pattern_store self))"
  by (simp add: update_patterns_def add_pattern_def Let_def)

lemma find_matching_None:
  assumes "find_matching E line ps = Inr None" and "p \<in> set ps"
  shows "matches E p line = Inr False"
proof -
  from assms(1) obtain w where "parse_line E line ps = Inr (None, w)"
    by (auto simp: find_matching_parse_line split: sum.splits)
  from parse_line_None[OF this] assms(2) show ?thesis by blast
qed

lemma run_invariant_start: "run_invariant E (pattern_store self) (session_start self)"
  by (simp add: run_invariant_def session_start_def cache_consistent_def map_filter_simps)

text \<open>
  A line without a matching cached pattern, for which the oracle's regex validates: the regex
  is not yet in \<^verbatim>\<open>new_patterns\<close>, since every regex there belongs to a cached pattern and no
  cached pattern matches the line. So the pattern is written, and the invariant kept.
\<close>

lemma ingest_invariant:
  assumes inv: "run_invariant E old st"
    and cache: "patterns_cache (parser st) = Some c"
    and sub: "new_patterns st \<subseteq> regex ` set c"
    and nomatch: "find_matching E line c = Inr None"
    and valid: "re_match E rgx line = Inr True"
  shows "rgx \<notin> new_patterns st"
    and "run_invariant E old (ingest st (rgx, u, False))"
proof -
  show fresh: "rgx \<notin> new_patterns st"
  proof
    assume "rgx \<in> new_patterns st"
    then obtain p where p: "p \<in> set c" "regex p = rgx" using sub by auto
    from find_matching_None[OF nomatch p(1)] have "matches E p line = Inr False" .
    then show False using valid p(2) by (simp add: matches_def)
  qed
  from inv obtain added where
    a: "pattern_store (parser st) = old @ added"
       "distinct (map regex added)"
       "regex ` set added = new_patterns st"
       "\<forall>p \<in> set added. \<not> is_error p \<and> need_reviewing p \<and> (\<exists>r. re_compile E (regex p) = Inr r)"
       "sorted_wrt (<) (map pattern_id added)"
       "\<forall>p \<in> set added. \<forall>q \<in> set old. pattern_id q < pattern_id p"
       "List.map_filter report_id (reports st) = map pattern_id added"
    and nodup: "SkippedDuplicate \<notin> set (reports st)"
    unfolding run_invariant_def by blast
  define np where "np = \<lparr>pattern_id = next_id (old @ added), regex = rgx, utility_name = u,
                          is_error = False, need_reviewing = True\<rparr>"
  let ?st' = "ingest st (rgx, u, False)"
  have st': "?st' = st\<lparr>parser := (parser st)\<lparr>pattern_store := old @ added @ [np],
                                               patterns_cache := Some (c @ [np])\<rparr>,
                        new_patterns := insert rgx (new_patterns st),
                        reports := reports st @ [AddedPattern (next_id (old @ added)) u rgx False]\<rparr>"
    using fresh by (simp add: ingest_def update_patterns_eq a(1) cache np_def)
  have store: "pattern_store (parser ?st') = old @ (added @ [np])" by (simp add: st')
  have d: "distinct (map regex (added @ [np]))"
    using a(2,3) fresh by (auto simp: np_def)
  have r: "regex ` set (added @ [np]) = new_patterns ?st'"
    using a(3) by (auto simp: st' np_def)
  have h: "\<forall>p \<in> set (added @ [np]). \<not> is_error p \<and> need_reviewing p \<and>
             (\<exists>r. re_compile E (regex p) = Inr r)"
    using a(4) re_match_compiles[OF valid] by (auto simp: np_def)
  have gt: "\<forall>q \<in> set (old @ added). pattern_id q < pattern_id np"
    using next_id_greater[of _ "old @ added"] by (simp add: np_def)
  have s: "sorted_wrt (<) (map pattern_id (added @ [np]))"
    using a(5) gt by (simp add: sorted_wrt_append)
  have f: "\<forall>p \<in> set (added @ [np]). \<forall>q \<in> set old. pattern_id q < pattern_id p"
    using a(6) gt by auto
  have ids: "List.map_filter report_id (reports ?st') = map pattern_id (added @ [np])"
    using a(7) by (simp add: st' map_filter_def np_def)
  have nd: "SkippedDuplicate \<notin> set (reports ?st')" using nodup by (simp add: st')
  have cc: "cache_consistent ?st'"
    using sub by (auto simp: cache_consistent_def st' np_def)
  have "\<exists>added'. pattern_store (parser ?st') = old @ added'
         \<and> distinct (map regex added')
         \<and> regex ` set added' = new_patterns ?st'
         \<and> (\<forall>p \<in> set added'. \<not> is_error p \<and> need_reviewing p \<and>
               (\<exists>r. re_compile E (regex p) = Inr r))
         \<and> sorted_wrt (<) (map pattern_id added')
         \<and> (\<forall>p \<in> set added'. \<forall>q \<in> set old. pattern_id q < pattern_id p)
         \<and> List.map_filter report_id (reports ?st') = map pattern_id added'"
    using store d r h s f ids by (intro exI[of _ "added @ [np]"] conjI)
  then show "run_invariant E old ?st'"
    unfolding run_invariant_def using nd cc by (intro conjI)
qed

lemma run_invariant_cong:
  assumes "run_invariant E old st"
    and "pattern_store (parser st') = pattern_store (parser st)"
    and "new_patterns st' = new_patterns st"
    and "List.map_filter report_id (reports st') = List.map_filter report_id (reports st)"
    and "SkippedDuplicate \<notin> set (reports st')"
    and "cache_consistent st'"
  shows "run_invariant E old st'"
  using assms unfolding run_invariant_def by simp

text \<open>The state in which the loop body looks for a cached pattern, and after the query.\<close>

lemma process_line_unfold:
  assumes "patterns (parser st) = (ps, self1)"
  shows "process_line E llm st line =
     (case find_matching E line ps of
        Inl err \<Rightarrow> (st\<lparr>parser := self1\<rparr>, Some err)
      | Inr (Some p) \<Rightarrow> (st\<lparr>parser := self1, reports := reports st @ [MatchedExisting p]\<rparr>, None)
      | Inr None \<Rightarrow>
          (case analyze_line_with_llm E (llm (llm_queries st + 1) line) line of
             Inl err \<Rightarrow> (st\<lparr>parser := self1, llm_queries := llm_queries st + 1\<rparr>, Some err)
           | Inr (msgs, None) \<Rightarrow>
               (st\<lparr>parser := self1, llm_queries := llm_queries st + 1,
                   reports := reports st @ [FailedToCreate]\<rparr>, None)
           | Inr (msgs, Some result) \<Rightarrow>
               (ingest (st\<lparr>parser := self1, llm_queries := llm_queries st + 1\<rparr>) result, None)))"
  using assms
  by (simp add: process_line_def Let_def split: sum.splits option.splits prod.splits)

lemma cache_after_patterns:
  assumes "patterns (parser st) = (ps, self1)" and "cache_consistent st"
  shows "patterns_cache self1 = Some ps" and "new_patterns st \<subseteq> regex ` set ps"
    and "pattern_store self1 = pattern_store (parser st)"
  using patterns_result[OF assms(1)] assms(2)
  by (auto simp: cache_consistent_def)

lemma process_line_invariant:
  assumes inv: "run_invariant E old st"
  shows "run_invariant E old (fst (process_line E llm st line))"
proof -
  obtain ps self1 where p: "patterns (parser st) = (ps, self1)" by (cases "patterns (parser st)")
  from inv have cc: "cache_consistent st" and nd: "SkippedDuplicate \<notin> set (reports st)"
    by (simp_all add: run_invariant_def)
  note c = cache_after_patterns[OF p cc]
  let ?st1 = "st\<lparr>parser := self1\<rparr>"
  have cc1: "cache_consistent (st\<lparr>parser := self1\<rparr>)"
    using c by (simp add: cache_consistent_def)
  have inv1: "run_invariant E old ?st1"
    by (rule run_invariant_cong[OF inv]) (use c nd cc1 in simp_all)
  show ?thesis
  proof (cases "find_matching E line ps")
    case (Inl err)
    then show ?thesis using inv1 by (simp add: process_line_unfold[OF p])
  next
    case (Inr found)
    show ?thesis
    proof (cases found)
      case (Some q)
      have "run_invariant E old (st\<lparr>parser := self1, reports := reports st @ [MatchedExisting q]\<rparr>)"
        by (rule run_invariant_cong[OF inv])
           (use c nd in \<open>simp_all add: cache_consistent_def map_filter_def\<close>)
      then show ?thesis using Inr Some by (simp add: process_line_unfold[OF p])
    next
      case None
      let ?st2 = "st\<lparr>parser := self1, llm_queries := llm_queries st + 1\<rparr>"
      have inv2: "run_invariant E old ?st2"
        by (rule run_invariant_cong[OF inv])
           (use c nd in \<open>simp_all add: cache_consistent_def\<close>)
      let ?a = "analyze_line_with_llm E (llm (llm_queries st + 1) line) line"
      show ?thesis
      proof (cases ?a)
        case (Inl err)
        then show ?thesis using Inr None inv2 by (simp add: process_line_unfold[OF p])
      next
        case Inr2: (Inr res)
        obtain msgs r where res: "res = (msgs, r)" by (cases res)
        show ?thesis
        proof (cases r)
          case N: None
          have "run_invariant E old (st\<lparr>parser := self1, llm_queries := llm_queries st + 1,
                   reports := reports st @ [FailedToCreate]\<rparr>)"
            by (rule run_invariant_cong[OF inv])
               (use c nd in \<open>simp_all add: cache_consistent_def map_filter_def\<close>)
          then show ?thesis using Inr None Inr2 res N by (simp add: process_line_unfold[OF p])
        next
          case (Some result)
          obtain rgx u e where result: "result = (rgx, u, e)" by (cases result)
          have a: "?a = Inr (msgs, Some (rgx, u, e))" using Inr2 res Some result by simp
          have e: "\<not> e" by (rule analyze_returns_no_error_flag[OF a])
          have v: "re_match E rgx line = Inr True" by (rule analyze_validates[OF a])
          have nm: "find_matching E line ps = Inr None" using Inr None by simp
          have "run_invariant E old (ingest ?st2 (rgx, u, False))"
            by (rule ingest_invariant(2)[OF inv2 _ _ nm v]) (use c in simp_all)
          then show ?thesis
            using Inr None a e result by (simp add: process_line_unfold[OF p])
        qed
      qed
    qed
  qed
qed

lemma lines_loop_invariant:
  "run_invariant E old st \<Longrightarrow> run_invariant E old (fst (lines_loop E llm quit n lines st))"
proof (induction lines arbitrary: n st)
  case Nil
  then show ?case by simp
next
  case (Cons l lines)
  show ?case
  proof (cases "strip l = []")
    case True
    then show ?thesis using Cons by simp
  next
    case False
    obtain st' r where pl: "process_line E llm st l = (st', r)" by (cases "process_line E llm st l")
    have h: "run_invariant E old st'"
      using process_line_invariant[OF Cons.prems, of llm l] pl by simp
    show ?thesis
    proof (cases r)
      case None
      then show ?thesis using False pl h Cons.IH[OF h] by simp
    next
      case (Some e)
      then show ?thesis using False pl h by simp
    qed
  qed
qed

lemma session_invariant:
  "run_invariant E (pattern_store self) (fst (lines_loop E llm quit n lines (session_start self)))"
  by (rule lines_loop_invariant[OF run_invariant_start])

section \<open>Patterns created from oracle suggestions\<close>

lemma appended_harmless_refl: "appended_harmless E s s"
  by (simp add: appended_harmless_def)

lemma run_invariant_harmless:
  "run_invariant E old st \<Longrightarrow> appended_harmless E old (pattern_store (parser st))"
  unfolding run_invariant_def appended_harmless_def list_all_iff by blast

lemma session_harmless:
  "appended_harmless E (pattern_store self)
     (pattern_store (fst (process_unprocessed_log E llm quit log self)))"
proof (cases log)
  case None
  then show ?thesis by (simp add: process_unprocessed_log_def appended_harmless_refl)
next
  case (Some content)
  let ?run = "lines_loop E llm quit 1 (splitlines content) (session_start self)"
  have h: "appended_harmless E (pattern_store self) (pattern_store (parser (fst ?run)))"
    by (rule run_invariant_harmless[OF session_invariant])
  obtain st r where l: "?run = (st, r)" by (cases ?run)
  show ?thesis using Some h l
    by (cases r) (simp_all add: process_unprocessed_log_def)
qed

lemma oracle_never_stores_invalid_regex:
  "\<exists>added. pattern_store (fst (process_unprocessed_log E llm quit log self)) = pattern_store self @ added
     \<and> (\<forall>p \<in> set added. \<exists>r. re_compile E (regex p) = Inr r)"
  using session_harmless[of E self llm quit log]
  by (auto simp: appended_harmless_def list_all_iff)

lemma find_append_cases:
  "find P (xs @ ys) = (case find P xs of None \<Rightarrow> find P ys | Some x \<Rightarrow> Some x)"
  by (induction xs) simp_all

lemma utility_rules_append:
  "utility_rules (ps @ qs) u = utility_rules ps u @ utility_rules qs u"
  by (simp add: utility_rules_def)

lemma counts_error_append_harmless:
  assumes "\<forall>x \<in> set ys. \<not> snd x"
  shows "counts_error E l (xs @ ys) = counts_error E l xs"
proof (cases "first_match E l xs")
  case (Some a)
  then show ?thesis by (simp add: counts_error_def first_match_def find_append_cases)
next
  case None
  then have "first_match E l (xs @ ys) = first_match E l ys"
    by (simp add: first_match_def find_append_cases)
  moreover have "\<not> counts_error E l ys"
  proof (cases "first_match E l ys")
    case None
    then show ?thesis by (simp add: counts_error_def)
  next
    case (Some b)
    then have "b \<in> set ys" unfolding first_match_def find_Some_iff by (metis nth_mem)
    then show ?thesis using assms Some by (auto simp: counts_error_def split: prod.splits)
  qed
  ultimately show ?thesis using None by (simp add: counts_error_def)
qed

lemma error_lines_append_harmless:
  assumes "\<forall>p \<in> set added. \<not> is_error p"
  shows "error_lines E (ps @ added) u lines = error_lines E ps u lines"
proof -
  have "\<forall>x \<in> set (utility_rules added u). \<not> snd x" using assms by (auto simp: utility_rules_def)
  then show ?thesis
    by (simp add: error_lines_def utility_rules_append counts_error_append_harmless)
qed

lemma error_lines_unknown_utility:
  "u \<notin> utility_name ` set ps \<Longrightarrow> error_lines E ps u lines = 0"
proof -
  assume "u \<notin> utility_name ` set ps"
  then have "utility_rules ps u = []" by (auto simp: utility_rules_def filter_empty_conv)
  then show ?thesis by (simp add: error_lines_def counts_error_def first_match_def)
qed

lemma utility_mapping_lookup_None:
  "map_of (utility_mapping (initialize_mappings ps)) u = None \<Longrightarrow> u \<notin> utility_name ` set ps"
proof
  assume n: "map_of (utility_mapping (initialize_mappings ps)) u = None"
    and "u \<in> utility_name ` set ps"
  then have "u \<in> set (sorted_list_of_set (utility_name ` set ps))" by simp
  then obtain i where "i < length (sorted_list_of_set (utility_name ` set ps))"
      "sorted_list_of_set (utility_name ` set ps) ! i = u" by (metis in_set_conv_nth)
  then have "map_of (utility_mapping (initialize_mappings ps)) u = Some i"
    by (simp add: utility_mapping_lookup)
  then show False using n by simp
qed

lemma scan_append_safe:
  "scan E l xs = None \<Longrightarrow> \<forall>x \<in> set ys. \<not> raises E (fst x) \<Longrightarrow> scan E l (xs @ ys) = None"
proof (induction E l xs rule: scan.induct)
  case (1 E line)
  then show ?case by (simp add: scan_safe)
next
  case (2 E line rgx err rest)
  then show ?case by (auto split: sum.splits bool.splits if_splits)
qed

text \<open>Appended patterns whose regexes compile never make a quiet scan raise.\<close>

lemma harmless_returns:
  assumes ok: "\<forall>p \<in> set added. \<exists>r. re_compile E (regex p) = Inr r"
    and q: "scanned_quietly E ps log_text"
  shows "scanned_quietly E (ps @ added) log_text"
  unfolding scanned_quietly_def
proof (intro ballI impI)
  fix l u assume l: "l \<in> set (splitlines log_text)" "strip l \<noteq> []"
  have old: "scan E l (utility_rules ps u) = None"
  proof (cases "u \<in> utility_name ` set ps")
    case True
    from q have "\<forall>l \<in> set (splitlines log_text). strip l \<noteq> [] \<longrightarrow>
        (\<forall>u \<in> utility_name ` set ps. scan E l (utility_rules ps u) = None)"
      by (simp only: scanned_quietly_def)
    from this[THEN bspec, OF l(1), THEN mp, OF l(2), THEN bspec, OF True] show ?thesis .
  next
    case False
    then have "utility_rules ps u = []" by (auto simp: utility_rules_def filter_empty_conv)
    then show ?thesis by simp
  qed
  have "\<forall>x \<in> set (utility_rules added u). \<not> raises E (fst x)"
    using ok by (auto simp: utility_rules_def raises_def)
  from scan_append_safe[OF old this]
  show "scan E l (utility_rules (ps @ added) u) = None"
    by (simp add: utility_rules_append)
qed

text \<open>Appended patterns that are not error patterns change no count.\<close>

lemma harmless_embedding:
  assumes ne: "\<forall>p \<in> set added. \<not> is_error p"
    and old: "generate_embedding E (initialize_mappings ps) log_text = Inr emb"
    and new: "generate_embedding E (initialize_mappings (ps @ added)) log_text = Inr emb'"
    and idx: "map_of (utility_mapping (initialize_mappings (ps @ added))) u = Some i'"
  shows "emb' ! i' = (case map_of (utility_mapping (initialize_mappings ps)) u of
                        Some i \<Rightarrow> emb ! i | None \<Rightarrow> 0)"
proof -
  let ?lines = "splitlines log_text"
  let ?vec = "\<lambda>qs. map (\<lambda>u. int (error_lines E qs u ?lines)) (sorted_list_of_set (utility_name ` set qs))"
  have e: "emb = ?vec ps" by (rule generate_embedding_Inr[OF old])
  have e': "emb' = ?vec (ps @ added)" by (rule generate_embedding_Inr[OF new])
  from idx have i': "i' < card (utility_name ` set (ps @ added))"
      "sorted_list_of_set (utility_name ` set (ps @ added)) ! i' = u"
    by (simp_all add: utility_mapping_lookup)
  then have new: "?vec (ps @ added) ! i' = int (error_lines E ps u ?lines)"
    using error_lines_append_harmless[OF ne, of E ps u ?lines] by simp
  show ?thesis
  proof (cases "map_of (utility_mapping (initialize_mappings ps)) u")
    case None
    then have "u \<notin> utility_name ` set ps" by (rule utility_mapping_lookup_None)
    then have "error_lines E ps u ?lines = 0" by (rule error_lines_unknown_utility)
    then show ?thesis using new None e' by simp
  next
    case (Some i)
    then have "i < card (utility_name ` set ps)" "sorted_list_of_set (utility_name ` set ps) ! i = u"
      by (simp_all add: utility_mapping_lookup)
    then have "?vec ps ! i = int (error_lines E ps u ?lines)" by simp
    then show ?thesis using new Some e e' by simp
  qed
qed

text \<open>
  Claim C10. \<open>analyze_line_with_llm\<close> never returns a true error flag. Hence whatever the
  oracle answers and however the run of \<open>process_unprocessed_log\<close> ends, the store afterwards
  is the store before followed by patterns with \<open>is_error = False\<close> (and
  \<open>need_reviewing = True\<close>), and these patterns increment no coordinate: for every log and
  every engine, whenever the embeddings over the old and the new snapshot are both
  returned, each coordinate of the new one equals the coordinate of the same utility in the
  old one, and is 0 for a utility the old snapshot lacks. With the engine of the run, the
  embedding over the new snapshot is returned whenever the one over the old snapshot is.
\<close>

theorem oracle_patterns_never_increment:
  assumes "process_unprocessed_log E llm quit log self = (self', outcome)"
  shows "(\<forall>response line msgs rgx u err.
            analyze_line_with_llm E response line = Inr (msgs, Some (rgx, u, err)) \<longrightarrow> \<not> err)
       \<and> (\<exists>added. pattern_store self' = pattern_store self @ added
            \<and> list_all (\<lambda>p. \<not> is_error p \<and> need_reviewing p) added)
       \<and> (\<forall>E' log_text emb emb'.
             generate_embedding E' (initialize_mappings (get_all_patterns (pattern_store self))) log_text
               = Inr emb
           \<and> generate_embedding E' (initialize_mappings (get_all_patterns (pattern_store self'))) log_text
               = Inr emb'
           \<longrightarrow> (\<forall>u i'. map_of (utility_mapping
                          (initialize_mappings (get_all_patterns (pattern_store self')))) u = Some i' \<longrightarrow>
                 emb' ! i' =
                   (case map_of (utility_mapping
                           (initialize_mappings (get_all_patterns (pattern_store self)))) u of
                      Some i \<Rightarrow> emb ! i | None \<Rightarrow> 0)))
       \<and> (\<forall>log_text emb.
             generate_embedding E (initialize_mappings (get_all_patterns (pattern_store self))) log_text
               = Inr emb
           \<longrightarrow> (\<exists>emb'. generate_embedding E
                         (initialize_mappings (get_all_patterns (pattern_store self'))) log_text
                       = Inr emb'))"
proof -
  have flag: "\<forall>response line msgs rgx u err.
            analyze_line_with_llm E response line = Inr (msgs, Some (rgx, u, err)) \<longrightarrow> \<not> err"
    using analyze_returns_no_error_flag by blast
  from session_harmless[of E self llm quit log] assms
  obtain added where added: "pattern_store self' = pattern_store self @ added"
      "list_all (\<lambda>p. \<not> is_error p \<and> need_reviewing p) added"
      "\<forall>p \<in> set added. \<exists>r. re_compile E (regex p) = Inr r"
    by (auto simp: appended_harmless_def list_all_iff)
  then have ne: "\<forall>p \<in> set added. \<not> is_error p" by (simp add: list_all_iff)
  have ex: "\<exists>added. pattern_store self' = pattern_store self @ added
            \<and> list_all (\<lambda>p. \<not> is_error p \<and> need_reviewing p) added"
    using added(1,2) by (intro exI[of _ added]) simp
  have same: "\<forall>(E' :: 'b re_engine) log_text emb emb'.
             generate_embedding E' (initialize_mappings (get_all_patterns (pattern_store self))) log_text
               = Inr emb
           \<and> generate_embedding E' (initialize_mappings (get_all_patterns (pattern_store self'))) log_text
               = Inr emb'
           \<longrightarrow> (\<forall>u i'. map_of (utility_mapping
                          (initialize_mappings (get_all_patterns (pattern_store self')))) u = Some i' \<longrightarrow>
                 emb' ! i' =
                   (case map_of (utility_mapping
                           (initialize_mappings (get_all_patterns (pattern_store self)))) u of
                      Some i \<Rightarrow> emb ! i | None \<Rightarrow> 0))"
  proof (intro allI impI, elim conjE)
    fix E' :: "'b re_engine" and log_text emb emb' u i'
    assume "generate_embedding E' (initialize_mappings (get_all_patterns (pattern_store self))) log_text
               = Inr emb"
      and "generate_embedding E' (initialize_mappings (get_all_patterns (pattern_store self'))) log_text
               = Inr emb'"
      and "map_of (utility_mapping
                          (initialize_mappings (get_all_patterns (pattern_store self')))) u = Some i'"
    then show "emb' ! i' =
                   (case map_of (utility_mapping
                           (initialize_mappings (get_all_patterns (pattern_store self)))) u of
                      Some i \<Rightarrow> emb ! i | None \<Rightarrow> 0)"
      using harmless_embedding[OF ne, of E' "pattern_store self" log_text emb emb' u i']
      by (simp add: get_all_patterns_def added(1))
  qed
  have ret: "\<forall>log_text emb.
             generate_embedding E (initialize_mappings (get_all_patterns (pattern_store self))) log_text
               = Inr emb
           \<longrightarrow> (\<exists>emb'. generate_embedding E
                         (initialize_mappings (get_all_patterns (pattern_store self'))) log_text
                       = Inr emb')"
  proof (intro allI impI)
    fix log_text emb
    assume "generate_embedding E (initialize_mappings (get_all_patterns (pattern_store self))) log_text
               = Inr emb"
    then have "scanned_quietly E (pattern_store self) log_text"
      using generate_embedding_returns[of E "pattern_store self" log_text emb]
      by (simp add: get_all_patterns_def)
    from harmless_returns[OF added(3) this]
    have "scanned_quietly E (pattern_store self') log_text" by (simp add: added(1))
    then show "\<exists>emb'. generate_embedding E
                         (initialize_mappings (get_all_patterns (pattern_store self'))) log_text
                       = Inr emb'"
      using generate_embedding_eq[of E "pattern_store self'" log_text]
      by (simp add: get_all_patterns_def)
  qed
  show ?thesis
    using flag ex same ret by (intro conjI)
qed

theorem oracle_patterns_never_increment_witness:
  "process_unprocessed_log (py_re no_other) demo_oracle never_quit (Some demo_log) demo_parser
     = (demo_parser_after, Inr True)
   \<and> generate_embedding (py_re no_other)
        (initialize_mappings (get_all_patterns (pattern_store demo_parser))) demo_log
       = Inr [1]
   \<and> generate_embedding (py_re no_other)
        (initialize_mappings (get_all_patterns (pattern_store demo_parser_after))) demo_log
       = Inr [1, 0]
   \<and> map_of (utility_mapping (initialize_mappings (get_all_patterns (pattern_store demo_parser_after))))
        ''alpha'' = Some 0
   \<and> map_of (utility_mapping (initialize_mappings (get_all_patterns (pattern_store demo_parser))))
        ''alpha'' = Some 0
   \<and> list_all (\<lambda>p. \<not> is_error p \<and> need_reviewing p)
        (drop (length (pattern_store demo_parser)) (pattern_store demo_parser_after))"
proof -
  let ?E = "py_re no_other"
  have run: "process_unprocessed_log ?E demo_oracle never_quit (Some demo_log) demo_parser
     = (demo_parser_after, Inr True)"
    by code_simp
  have e0: "generate_embedding ?E (initialize_mappings (get_all_patterns (pattern_store demo_parser))) demo_log
       = Inr [1]"
    by code_simp
  have i1: "map_of (utility_mapping (initialize_mappings (get_all_patterns (pattern_store demo_parser_after))))
        ''alpha'' = Some 0" by code_simp
  have i0: "map_of (utility_mapping (initialize_mappings (get_all_patterns (pattern_store demo_parser))))
        ''alpha'' = Some 0" by code_simp
  note inst = oracle_patterns_never_increment[OF run]
  from inst[THEN conjunct2, THEN conjunct2, THEN conjunct2, rule_format, OF e0]
  obtain emb' where e1: "generate_embedding ?E
      (initialize_mappings (get_all_patterns (pattern_store demo_parser_after))) demo_log = Inr emb'"
    by blast
  have "emb' = [1, 0]"
  proof -
    have "generate_embedding ?E
      (initialize_mappings (get_all_patterns (pattern_store demo_parser_after))) demo_log = Inr [1, 0]"
      by code_simp
    with e1 show ?thesis by simp
  qed
  with e1 have e1': "generate_embedding ?E
      (initialize_mappings (get_all_patterns (pattern_store demo_parser_after))) demo_log = Inr [1, 0]"
    by simp
  from inst[THEN conjunct2, THEN conjunct1]
  obtain added where "pattern_store demo_parser_after = pattern_store demo_parser @ added"
      "list_all (\<lambda>p. \<not> is_error p \<and> need_reviewing p) added" by blast
  then have "list_all (\<lambda>p. \<not> is_error p \<and> need_reviewing p)
        (drop (length (pattern_store demo_parser)) (pattern_store demo_parser_after))" by simp
  then show ?thesis using run e0 e1' i0 i1 by simp
qed

section \<open>Repeated proposals within one run\<close>

text \<open>
  In a run of \<open>process_unprocessed_log\<close>, a line for which the oracle proposes a regex that
  the run has already stored: the regex belongs to a cached pattern, so either that pattern
  or an earlier one matches the line and the oracle is not asked, or the regex does not
  match the line and the proposal fails validation. Nothing is written either way.
\<close>

lemma repeated_proposal:
  assumes inv: "run_invariant E old st"
    and known: "rgx \<in> new_patterns st"
    and ans: "llm (llm_queries st + 1) line = JSONObject (Some rgx) uf"
    and pl: "process_line E llm st line = (st', r)"
  shows "pattern_store (parser st') = pattern_store (parser st)
       \<and> List.map_filter report_id (reports st') = List.map_filter report_id (reports st)
       \<and> (llm_queries st' = llm_queries st + 1 \<longrightarrow>
            r = None \<and> reports st' = reports st @ [FailedToCreate])"
proof -
  obtain ps self1 where p: "patterns (parser st) = (ps, self1)" by (cases "patterns (parser st)")
  from inv have cc: "cache_consistent st" by (simp add: run_invariant_def)
  note c = cache_after_patterns[OF p cc]
  from inv known obtain r0 where comp: "re_compile E rgx = Inr r0"
    unfolding run_invariant_def by force
  from known c(2) obtain q where q: "q \<in> set ps" "regex q = rgx" by auto
  show ?thesis
  proof (cases "find_matching E line ps")
    case (Inl err)
    then have "st' = st\<lparr>parser := self1\<rparr>"
      using pl by (simp add: process_line_unfold[OF p])
    then show ?thesis using c(3) by simp
  next
    case (Inr found)
    show ?thesis
    proof (cases found)
      case (Some m)
      then have "st' = st\<lparr>parser := self1, reports := reports st @ [MatchedExisting m]\<rparr>"
        using pl Inr by (simp add: process_line_unfold[OF p])
      then show ?thesis using c(3) by (simp add: map_filter_def)
    next
      case None
      have "matches E q line = Inr False"
        by (rule find_matching_None[OF _ q(1)]) (use Inr None in simp)
      then have "re_match E rgx line = Inr False"
        using comp q(2) by (auto simp: matches_def re_match_def split: sum.splits if_splits)
      then have "analyze_line_with_llm E (llm (llm_queries st + 1) line) line
                   = Inr ([NoMatchMessage], None)"
        unfolding ans by (rule analyze_no_match)
      then have "st' = st\<lparr>parser := self1, llm_queries := llm_queries st + 1,
                            reports := reports st @ [FailedToCreate]\<rparr>" and "r = None"
        using pl Inr None by (simp_all add: process_line_unfold[OF p])
      then show ?thesis using c(3) by (simp add: map_filter_def)
    qed
  qed
qed

text \<open>
  Claim C8, as amended. In a run of the loop of \<open>process_unprocessed_log\<close>, whatever the
  oracle answers and wherever the run stands, the store is the store of the start followed
  by exactly one pattern for each regex string recorded in \<^verbatim>\<open>new_patterns\<close>; the pattern ids
  reported are the ids of these patterns, which are distinct and differ from every id of the
  start; and the duplicate branch has not been taken. When the oracle then proposes, for the
  next line, a regex string already recorded, nothing is written to the store and no pattern
  id is reported: if the oracle was asked at all, the proposal fails validation, because the
  regex is that of a cached pattern and does not match the line, and the line is reported as
  failed.
\<close>

theorem repeated_proposal_never_stored_twice:
  assumes "lines_loop E llm quit n lines (session_start self) = (st, outcome)"
  shows "(\<exists>added. pattern_store (parser st) = pattern_store self @ added
            \<and> distinct (map regex added)
            \<and> regex ` set added = new_patterns st
            \<and> List.map_filter report_id (reports st) = map pattern_id added
            \<and> distinct (map pattern_id added)
            \<and> (\<forall>p \<in> set added. \<forall>q \<in> set (pattern_store self). pattern_id p \<noteq> pattern_id q))
       \<and> SkippedDuplicate \<notin> set (reports st)
       \<and> (\<forall>line rgx uf st' r.
             rgx \<in> new_patterns st \<and> llm (llm_queries st + 1) line = JSONObject (Some rgx) uf \<and>
             process_line E llm st line = (st', r) \<longrightarrow>
               pattern_store (parser st') = pattern_store (parser st)
             \<and> List.map_filter report_id (reports st') = List.map_filter report_id (reports st)
             \<and> (llm_queries st' = llm_queries st + 1 \<longrightarrow>
                  r = None \<and> reports st' = reports st @ [FailedToCreate]))"
proof -
  have inv: "run_invariant E (pattern_store self) st"
    using session_invariant[of E self llm quit n lines] assms by simp
  then obtain added where
    a: "pattern_store (parser st) = pattern_store self @ added"
       "distinct (map regex added)"
       "regex ` set added = new_patterns st"
       "sorted_wrt (<) (map pattern_id added)"
       "\<forall>p \<in> set added. \<forall>q \<in> set (pattern_store self). pattern_id q < pattern_id p"
       "List.map_filter report_id (reports st) = map pattern_id added"
    unfolding run_invariant_def by blast
  have d: "distinct (map pattern_id added)"
    using a(4) by (simp add: strict_sorted_iff)
  have f: "\<forall>p \<in> set added. \<forall>q \<in> set (pattern_store self). pattern_id p \<noteq> pattern_id q"
    using a(5) by fastforce
  have first: "\<exists>added. pattern_store (parser st) = pattern_store self @ added
            \<and> distinct (map regex added)
            \<and> regex ` set added = new_patterns st
            \<and> List.map_filter report_id (reports st) = map pattern_id added
            \<and> distinct (map pattern_id added)
            \<and> (\<forall>p \<in> set added. \<forall>q \<in> set (pattern_store self). pattern_id p \<noteq> pattern_id q)"
    using a(1,2,3,6) d f by (intro exI[of _ added] conjI)
  have nodup: "SkippedDuplicate \<notin> set (reports st)"
    using inv by (simp add: run_invariant_def)
  have again: "\<forall>line rgx uf st' r.
             rgx \<in> new_patterns st \<and> llm (llm_queries st + 1) line = JSONObject (Some rgx) uf \<and>
             process_line E llm st line = (st', r) \<longrightarrow>
               pattern_store (parser st') = pattern_store (parser st)
             \<and> List.map_filter report_id (reports st') = List.map_filter report_id (reports st)
             \<and> (llm_queries st' = llm_queries st + 1 \<longrightarrow>
                  r = None \<and> reports st' = reports st @ [FailedToCreate])"
  proof (intro allI impI, elim conjE)
    fix line rgx uf st' r
    assume "rgx \<in> new_patterns st" "llm (llm_queries st + 1) line = JSONObject (Some rgx) uf"
      "process_line E llm st line = (st', r)"
    from repeated_proposal[OF inv this]
    show "pattern_store (parser st') = pattern_store (parser st)
             \<and> List.map_filter report_id (reports st') = List.map_filter report_id (reports st)
             \<and> (llm_queries st' = llm_queries st + 1 \<longrightarrow>
                  r = None \<and> reports st' = reports st @ [FailedToCreate])" .
  qed
  show ?thesis using first nodup again by (intro conjI)
qed

theorem repeated_proposal_never_stored_twice_witness:
  "''a+'' \<in> new_patterns
       (fst (lines_loop (py_re no_other) repeat_oracle never_quit 1 [''aaa''] (session_start empty_parser)))
   \<and> repeat_oracle
       (llm_queries (fst (lines_loop (py_re no_other) repeat_oracle never_quit 1 [''aaa'']
                            (session_start empty_parser))) + 1) ''bbb''
       = JSONObject (Some ''a+'') (Some ''tool'')
   \<and> llm_queries (fst (process_line (py_re no_other) repeat_oracle
        (fst (lines_loop (py_re no_other) repeat_oracle never_quit 1 [''aaa''] (session_start empty_parser)))
        ''bbb''))
       = llm_queries (fst (lines_loop (py_re no_other) repeat_oracle never_quit 1 [''aaa'']
                            (session_start empty_parser))) + 1
   \<and> pattern_store (parser (fst (process_line (py_re no_other) repeat_oracle
        (fst (lines_loop (py_re no_other) repeat_oracle never_quit 1 [''aaa''] (session_start empty_parser)))
        ''bbb'')))
       = [\<lparr>pattern_id = 1, regex = ''a+'', utility_name = ''tool'', is_error = False,
            need_reviewing = True\<rparr>]
   \<and> reports (fst (process_line (py_re no_other) repeat_oracle
        (fst (lines_loop (py_re no_other) repeat_oracle never_quit 1 [''aaa''] (session_start empty_parser)))
        ''bbb''))
       = [AddedPattern 1 ''tool'' ''a+'' False, FailedToCreate]"
proof -
  let ?E = "py_re no_other"
  let ?run = "lines_loop ?E repeat_oracle never_quit 1 [''aaa''] (session_start empty_parser)"
  let ?st = "fst ?run"
  let ?next = "process_line ?E repeat_oracle ?st ''bbb''"
  have run: "?run = (?st, snd ?run)" by simp
  have known: "''a+'' \<in> new_patterns ?st" by code_simp
  have ans: "repeat_oracle (llm_queries ?st + 1) ''bbb'' = JSONObject (Some ''a+'') (Some ''tool'')"
    by (simp add: repeat_oracle_def)
  have asked: "llm_queries (fst ?next) = llm_queries ?st + 1" by code_simp
  have store: "pattern_store (parser ?st)
      = [\<lparr>pattern_id = 1, regex = ''a+'', utility_name = ''tool'', is_error = False,
           need_reviewing = True\<rparr>]" by code_simp
  have reps: "reports ?st = [AddedPattern 1 ''tool'' ''a+'' False]" by code_simp
  have pl: "?next = (fst ?next, snd ?next)" by simp
  note inst = repeated_proposal_never_stored_twice[OF run, THEN conjunct2, THEN conjunct2,
      rule_format, of "''a+''" "''bbb''" "Some ''tool''" "fst ?next" "snd ?next"]
  have "pattern_store (parser (fst ?next)) = pattern_store (parser ?st)
      \<and> reports (fst ?next) = reports ?st @ [FailedToCreate]"
    using inst known ans pl asked by blast
  then show ?thesis using known ans asked store reps by simp
qed

text \<open>
  Claim C8 as stated says that the second proposal of a regex returns the id of the existing
  pattern. It does not. In the run on the log of two lines the oracle is asked twice and
  proposes the same regex twice; the first proposal creates pattern 1 and reports its id,
  the second is rejected, reports no id, and the line is reported as failed.
\<close>

theorem repeated_proposal_returns_no_id_counterexample:
  "splitlines two_line_log = [''aaa'', ''bbb'']
   \<and> repeat_oracle 1 ''aaa'' = JSONObject (Some ''a+'') (Some ''tool'')
   \<and> repeat_oracle 2 ''bbb'' = JSONObject (Some ''a+'') (Some ''tool'')
   \<and> llm_queries (fst (lines_loop (py_re no_other) repeat_oracle never_quit 1
        (splitlines two_line_log) (session_start empty_parser))) = 2
   \<and> reports (fst (lines_loop (py_re no_other) repeat_oracle never_quit 1
        (splitlines two_line_log) (session_start empty_parser)))
       = [AddedPattern 1 ''tool'' ''a+'' False, FailedToCreate]
   \<and> map report_id (reports (fst (lines_loop (py_re no_other) repeat_oracle never_quit 1
        (splitlines two_line_log) (session_start empty_parser))))
       = [Some 1, None]
   \<and> pattern_store (fst (process_unprocessed_log (py_re no_other) repeat_oracle never_quit
        (Some two_line_log) empty_parser))
       = [\<lparr>pattern_id = 1, regex = ''a+'', utility_name = ''tool'', is_error = False,
            need_reviewing = True\<rparr>]"
  by code_simp

section \<open>The matcher: what remains is a suffix, and text may follow a match\<close>

lemma star_ends_sound:
  "v \<in> set (star_ends k step front acc) \<Longrightarrow>
     v \<in> set acc \<or> (\<exists>w \<in> set front. (step_rel step)\<^sup>*\<^sup>* w v)"
proof (induction k arbitrary: front acc)
  case 0
  then show ?case by simp
next
  case (Suc k)
  let ?new = "filter (\<lambda>u. u \<notin> set acc) (remdups (concat (map step front)))"
  show ?case
  proof (cases "?new = []")
    case True
    then show ?thesis using Suc.prems by (simp add: Let_def)
  next
    case False
    then have "v \<in> set (star_ends k step ?new (acc @ ?new))"
      using Suc.prems by (simp add: Let_def)
    from Suc.IH[OF this] consider "v \<in> set acc" | "v \<in> set ?new"
      | w where "w \<in> set ?new" "(step_rel step)\<^sup>*\<^sup>* w v" by auto
    then show ?thesis
    proof cases
      case 1
      then show ?thesis by simp
    next
      case 2
      then obtain w where "w \<in> set front" "v \<in> set (step w)" by auto
      then have "(step_rel step)\<^sup>*\<^sup>* w v" by (simp add: step_rel_def r_into_rtranclp)
      then show ?thesis using \<open>w \<in> set front\<close> by blast
    next
      case 3
      then obtain w0 where w0: "w0 \<in> set front" "w \<in> set (step w0)" by auto
      then have "(step_rel step)\<^sup>*\<^sup>* w0 v"
        using 3(2) by (simp add: step_rel_def converse_rtranclp_into_rtranclp)
      then show ?thesis using w0(1) by blast
    qed
  qed
qed

lemma star_ends_closed:
  assumes "set front \<subseteq> set acc"
    and "\<forall>w \<in> set acc - set front. set (step w) \<subseteq> set acc"
    and "finite U" and "set acc \<subseteq> U" and "\<forall>w \<in> U. set (step w) \<subseteq> U"
    and "distinct acc" and "card U \<le> k + length acc"
  shows "set acc \<subseteq> set (star_ends k step front acc)
       \<and> (\<forall>w \<in> set (star_ends k step front acc). set (step w) \<subseteq> set (star_ends k step front acc))"
  using assms
proof (induction k arbitrary: front acc)
  case 0
  have "card (set acc) = length acc" using "0.prems"(6) by (simp add: distinct_card)
  then have "set acc = U"
    using "0.prems"(3,4,7) by (simp add: card_seteq)
  then show ?case using "0.prems"(5) by simp
next
  case (Suc k)
  let ?new = "filter (\<lambda>u. u \<notin> set acc) (remdups (concat (map step front)))"
  show ?case
  proof (cases "?new = []")
    case True
    then have "\<forall>w \<in> set front. set (step w) \<subseteq> set acc"
      by (auto simp: filter_empty_conv)
    then have "\<forall>w \<in> set acc. set (step w) \<subseteq> set acc" using Suc.prems(2) by blast
    then show ?thesis using True by (simp add: Let_def)
  next
    case False
    have a1: "set ?new \<subseteq> set (acc @ ?new)" by simp
    have a2: "\<forall>w \<in> set (acc @ ?new) - set ?new. set (step w) \<subseteq> set (acc @ ?new)"
    proof
      fix w assume "w \<in> set (acc @ ?new) - set ?new"
      then have w: "w \<in> set acc" by auto
      show "set (step w) \<subseteq> set (acc @ ?new)"
      proof (cases "w \<in> set front")
        case True
        then show ?thesis by auto
      next
        case F: False
        then show ?thesis using Suc.prems(2) w by auto
      qed
    qed
    have a4: "set (acc @ ?new) \<subseteq> U"
      using Suc.prems(1,4,5) by auto
    have a6: "distinct (acc @ ?new)" using Suc.prems(6) by auto
    have "length ?new \<ge> 1" using False by (cases ?new) auto
    then have a7: "card U \<le> k + length (acc @ ?new)" using Suc.prems(7) by simp
    from Suc.IH[OF a1 a2 Suc.prems(3) a4 Suc.prems(5) a6 a7]
    show ?thesis using False by (auto simp: Let_def)
  qed
qed

lemma closed_contains_reachable:
  assumes "(step_rel step)\<^sup>*\<^sup>* w v" and "w \<in> S" and "\<forall>w \<in> S. set (step w) \<subseteq> S"
  shows "v \<in> S"
  using assms by (induction rule: rtranclp_induct) (auto simp: step_rel_def)

lemma ends_suffix: "v \<in> set (ends r n t) \<Longrightarrow> suffix v t"
proof (induction r arbitrary: t v)
  case (Seq a b)
  then obtain w where "w \<in> set (ends a n t)" "v \<in> set (ends b n w)" by auto
  then show ?case using Seq.IH by (meson suffix_order.trans)
next
  case (Star a)
  have step: "suffix v w" if "(step_rel (ends a n))\<^sup>*\<^sup>* w v" for w v
    using that
  proof (induction rule: rtranclp_induct)
    case base
    then show ?case by simp
  next
    case (step y z)
    then show ?case using Star.IH[of z y] by (auto simp: step_rel_def intro: suffix_order.trans)
  qed
  from Star.prems have "v \<in> set (star_ends (length t) (ends a n) [t] [t])" by simp
  from star_ends_sound[OF this] show ?case using step by auto
qed (auto split: list.splits if_splits simp: suffix_Cons)

lemma ends_Star_reachable:
  "(v \<in> set (ends (Star a) n t)) = (step_rel (ends a n))\<^sup>*\<^sup>* t v"
proof
  assume "v \<in> set (ends (Star a) n t)"
  then have "v \<in> set (star_ends (length t) (ends a n) [t] [t])" by simp
  from star_ends_sound[OF this] show "(step_rel (ends a n))\<^sup>*\<^sup>* t v" by auto
next
  assume r: "(step_rel (ends a n))\<^sup>*\<^sup>* t v"
  let ?U = "set (suffixes t)"
  have "set [t] \<subseteq> set (star_ends (length t) (ends a n) [t] [t])
       \<and> (\<forall>w \<in> set (star_ends (length t) (ends a n) [t] [t]).
             set (ends a n w) \<subseteq> set (star_ends (length t) (ends a n) [t] [t]))"
  proof (rule star_ends_closed[where U = ?U])
    show "\<forall>w \<in> ?U. set (ends a n w) \<subseteq> ?U"
    proof (intro ballI subsetI)
      fix w y assume "w \<in> ?U" "y \<in> set (ends a n w)"
      then have "suffix w t" "suffix y w" using ends_suffix by auto
      then have "suffix y t" by (rule suffix_order.trans[rotated])
      then show "y \<in> ?U" by simp
    qed
    show "card ?U \<le> length t + length [t]"
      using card_length[of "suffixes t"] by (simp add: length_suffixes)
  qed auto
  then show "v \<in> set (ends (Star a) n t)"
    using closed_contains_reachable[OF r, of "set (star_ends (length t) (ends a n) [t] [t])"]
    by simp
qed

lemma ends_extend:
  "\<not> has_eol r \<Longrightarrow> v \<in> set (ends r n t) \<Longrightarrow> v @ x \<in> set (ends r (n + length x) (t @ x))"
proof (induction r arbitrary: t v)
  case (Seq a b)
  then obtain w where w: "w \<in> set (ends a n t)" "v \<in> set (ends b n w)" by auto
  then have "w @ x \<in> set (ends a (n + length x) (t @ x))"
      "v @ x \<in> set (ends b (n + length x) (w @ x))"
    using Seq by auto
  then show ?case by auto
next
  case (Star a)
  have ne: "\<not> has_eol a" using Star.prems(1) by simp
  have "(step_rel (ends a n))\<^sup>*\<^sup>* t v" using Star.prems(2) by (simp only: ends_Star_reachable)
  then have "(step_rel (ends a (n + length x)))\<^sup>*\<^sup>* (t @ x) (v @ x)"
  proof (induction rule: rtranclp_induct)
    case base
    then show ?case by simp
  next
    case (step y z)
    have "step_rel (ends a (n + length x)) (y @ x) (z @ x)"
      using Star.IH[OF ne, of z y] step(2) by (simp add: step_rel_def)
    then show ?case using step(3) by (rule rtranclp.rtrancl_into_rtrancl[rotated])
  qed
  then show ?case by (simp only: ends_Star_reachable)
next
  case (Lit c)
  from Lit.prems(2) obtain y ys where "t = y # ys" by (cases t) auto
  then show ?case using Lit.prems(2) by (auto split: if_splits)
next
  case Dot
  from Dot.prems(2) obtain y ys where "t = y # ys" by (cases t) auto
  then show ?case using Dot.prems(2) by (auto split: if_splits)
next
  case (Cls neg rs)
  from Cls.prems(2) obtain y ys where "t = y # ys" by (cases t) auto
  then show ?case using Cls.prems(2) by (auto split: if_splits)
next
  case Bol
  then show ?case by (auto split: if_splits)
next
  case Eol
  have "has_eol Eol" by simp
  with Eol.prems(1) show ?case by blast
next
  case Eps
  then show ?case by simp
next
  case (Alt a b)
  then show ?case by auto
qed

lemma py_rx_match_extend:
  "\<not> has_eol r \<Longrightarrow> py_rx_match r line \<Longrightarrow> py_rx_match r (line @ extra)"
proof -
  assume ne: "\<not> has_eol r" and "py_rx_match r line"
  then obtain v where "v \<in> set (ends r (length line) line)"
    by (cases "ends r (length line) line") (auto simp: py_rx_match_def)
  from ends_extend[OF ne this, of extra] show ?thesis
    by (auto simp: py_rx_match_def)
qed

lemma foldl_Seq_no_eol:
  "\<not> has_eol r \<Longrightarrow> \<forall>x \<in> set rs. \<not> has_eol x \<Longrightarrow> \<not> has_eol (foldl Seq r rs)"
  by (induction rs arbitrary: r) auto

lemma foldl_Alt_no_eol:
  "\<not> has_eol r \<Longrightarrow> \<forall>x \<in> set rs. \<not> has_eol x \<Longrightarrow> \<not> has_eol (foldl Alt r rs)"
  by (induction rs arbitrary: r) auto

lemma mk_seq_no_eol: "\<forall>x \<in> set items. \<not> has_eol (snd x) \<Longrightarrow> \<not> has_eol (mk_seq items)"
proof -
  assume a: "\<forall>x \<in> set items. \<not> has_eol (snd x)"
  then have all: "\<forall>r \<in> set (rev (map snd items)). \<not> has_eol r" by auto
  show ?thesis
  proof (cases "rev (map snd items)")
    case Nil
    then show ?thesis by (simp add: mk_seq_def)
  next
    case (Cons r rs)
    then have "\<not> has_eol r" "\<forall>x \<in> set rs. \<not> has_eol x" using all by auto
    then show ?thesis using Cons by (simp add: mk_seq_def foldl_Seq_no_eol)
  qed
qed

lemma close_frame_no_eol: "frame_no_eol f \<Longrightarrow> \<not> has_eol (close_frame f)"
proof -
  assume a: "frame_no_eol f"
  then have m: "\<not> has_eol (mk_seq (snd f))" by (simp add: frame_no_eol_def mk_seq_no_eol)
  then have all: "\<forall>r \<in> set (rev (mk_seq (snd f) # fst f)). \<not> has_eol r"
    using a by (auto simp: frame_no_eol_def)
  show ?thesis
  proof (cases "rev (mk_seq (snd f) # fst f)")
    case Nil
    then show ?thesis by (simp add: close_frame_def)
  next
    case (Cons r rs)
    then have "\<not> has_eol r" "\<forall>x \<in> set rs. \<not> has_eol x" using all by auto
    then show ?thesis using Cons by (simp add: close_frame_def foldl_Alt_no_eol)
  qed
qed

lemma push_item_no_eol: "frame_no_eol f \<Longrightarrow> \<not> has_eol r \<Longrightarrow> frame_no_eol (push_item k r f)"
  by (simp add: frame_no_eol_def push_item_def)

lemma seq_n_no_eol: "\<not> has_eol r \<Longrightarrow> \<not> has_eol q \<Longrightarrow> \<not> has_eol (seq_n m r q)"
  by (induction m) auto

lemma opt_n_no_eol: "\<not> has_eol r \<Longrightarrow> \<not> has_eol (opt_n m r)"
  by (induction m) auto

lemma repeat_rx_no_eol: "\<not> has_eol r \<Longrightarrow> \<not> has_eol (repeat_rx lo hi r)"
  by (cases hi) (simp_all add: repeat_rx_def seq_n_no_eol opt_n_no_eol)

lemma quantify_no_eol:
  "frame_no_eol f \<Longrightarrow> quantify lo hi f = Compiled f' \<Longrightarrow> frame_no_eol f'"
  by (auto simp: quantify_def frame_no_eol_def repeat_rx_no_eol
           split: list.splits item_kind.splits prod.splits)

lemma escape_item_no_eol: "escape_item e = Compiled (k, r) \<Longrightarrow> \<not> has_eol r"
  by (auto simp: escape_item_def split: if_splits)

lemma parse_no_eol:
  "parse stack f s = Compiled r \<Longrightarrow> CHR ''$'' \<notin> set s \<Longrightarrow>
     frame_no_eol f \<Longrightarrow> \<forall>g \<in> set stack. frame_no_eol g \<Longrightarrow> \<not> has_eol r"
proof (induction stack f s rule: parse.induct)
  case (1 stack f)
  then show ?case by (auto simp: close_frame_no_eol split: if_splits)
next
  case (2 stack f c cs)
  note IH = "2.IH"
  note p = "2.prems"
  have nd: "c \<noteq> CHR ''$''" "CHR ''$'' \<notin> set cs" using p(2) by auto
  have lit: "frame_no_eol (push_item Plain (Lit c) f)" using p(3) by (simp add: push_item_no_eol)
  consider (esc) "c = CHR 0x5C" | (cset) "c \<noteq> CHR 0x5C" "c = CHR ''[''"
    | (lpar) "c \<noteq> CHR 0x5C" "c \<noteq> CHR ''[''" "c = CHR ''(''"
    | (rpar) "c \<noteq> CHR 0x5C" "c \<noteq> CHR ''[''" "c \<noteq> CHR ''(''" "c = CHR '')''"
    | (bar) "c \<noteq> CHR 0x5C" "c \<noteq> CHR ''[''" "c \<noteq> CHR ''(''" "c \<noteq> CHR '')''" "c = CHR ''|''"
    | (dot) "c \<noteq> CHR 0x5C" "c \<noteq> CHR ''[''" "c \<noteq> CHR ''(''" "c \<noteq> CHR '')''" "c \<noteq> CHR ''|''"
        "c = CHR ''.''"
    | (bol) "c \<noteq> CHR 0x5C" "c \<noteq> CHR ''[''" "c \<noteq> CHR ''(''" "c \<noteq> CHR '')''" "c \<noteq> CHR ''|''"
        "c \<noteq> CHR ''.''" "c = CHR ''^''"
    | (quant) "c \<noteq> CHR 0x5C" "c \<noteq> CHR ''[''" "c \<noteq> CHR ''(''" "c \<noteq> CHR '')''" "c \<noteq> CHR ''|''"
        "c \<noteq> CHR ''.''" "c \<noteq> CHR ''^''" "c = CHR ''*'' \<or> c = CHR ''+'' \<or> c = CHR ''?''"
    | (brace) "c \<noteq> CHR 0x5C" "c \<noteq> CHR ''[''" "c \<noteq> CHR ''(''" "c \<noteq> CHR '')''" "c \<noteq> CHR ''|''"
        "c \<noteq> CHR ''.''" "c \<noteq> CHR ''^''" "\<not> (c = CHR ''*'' \<or> c = CHR ''+'' \<or> c = CHR ''?'')"
        "c = CHR ''{''"
    | (other) "c \<noteq> CHR 0x5C" "c \<noteq> CHR ''[''" "c \<noteq> CHR ''(''" "c \<noteq> CHR '')''" "c \<noteq> CHR ''|''"
        "c \<noteq> CHR ''.''" "c \<noteq> CHR ''^''" "\<not> (c = CHR ''*'' \<or> c = CHR ''+'' \<or> c = CHR ''?'')"
        "c \<noteq> CHR ''{''"
    by blast
  then show ?case
  proof cases
    case esc
    show ?thesis
    proof (cases cs)
      case Nil
      then show ?thesis using p(1) esc by simp
    next
      case (Cons e rest)
      show ?thesis
      proof (cases "escape_item e")
        case (Compiled x)
        obtain k r' where x: "x = (k, r')" by (cases x)
        have "frame_no_eol (push_item k r' f)"
          using escape_item_no_eol[of e k r'] Compiled x p(3) by (simp add: push_item_no_eol)
        moreover have "parse stack (push_item k r' f) rest = Compiled r"
          using p(1) esc Cons Compiled x by simp
        moreover have "CHR ''$'' \<notin> set rest" using nd Cons by simp
        ultimately show ?thesis using IH(1)[OF esc Cons Compiled x[symmetric]] p(4) by blast
      next
        case CompileError
        then show ?thesis using p(1) esc Cons by simp
      next
        case Overflow
        then show ?thesis using p(1) esc Cons by simp
      next
        case Unsupported
        then show ?thesis using p(1) esc Cons by simp
      qed
    qed
  next
    case cset
    then show ?thesis using p(1) by simp
  next
    case lpar
    show ?thesis
    proof (cases cs)
      case Nil
      then show ?thesis using p(1) lpar by simp
    next
      case (Cons e rest)
      show ?thesis
      proof (cases "e = CHR ''?'' \<or> 50 \<le> length stack")
        case True
        then show ?thesis using p(1) lpar Cons by auto
      next
        case False
        have "parse (f # stack) ([], []) cs = Compiled r" using p(1) lpar Cons False by simp
        moreover have "frame_no_eol ([], [])" by (simp add: frame_no_eol_def)
        moreover have "\<forall>g \<in> set (f # stack). frame_no_eol g" using p(3,4) by simp
        ultimately show ?thesis
          using IH(2)[OF lpar(1,2,3) Cons False] nd(2) by blast
      qed
    qed
  next
    case rpar
    show ?thesis
    proof (cases stack)
      case Nil
      then show ?thesis using p(1) rpar by simp
    next
      case (Cons outer stack')
      have "parse stack' (push_item Plain (close_frame f) outer) cs = Compiled r"
        using p(1) rpar Cons by simp
      moreover have "frame_no_eol (push_item Plain (close_frame f) outer)"
        using p(3,4) Cons by (simp add: push_item_no_eol close_frame_no_eol)
      moreover have "\<forall>g \<in> set stack'. frame_no_eol g" using p(4) Cons by simp
      ultimately show ?thesis using IH(3)[OF rpar(1,2,3,4) Cons] nd(2) by blast
    qed
  next
    case bar
    have "parse stack (mk_seq (snd f) # fst f, []) cs = Compiled r" using p(1) bar by simp
    moreover have "frame_no_eol (mk_seq (snd f) # fst f, [])"
      using p(3) by (simp add: frame_no_eol_def mk_seq_no_eol)
    ultimately show ?thesis using IH(4)[OF bar(1,2,3,4,5)] nd(2) p(4) by blast
  next
    case dot
    have "parse stack (push_item Plain Dot f) cs = Compiled r" using p(1) dot by simp
    moreover have "frame_no_eol (push_item Plain Dot f)" using p(3) by (simp add: push_item_no_eol)
    ultimately show ?thesis using IH(5)[OF dot(1,2,3,4,5,6)] nd(2) p(4) by blast
  next
    case bol
    have "parse stack (push_item Anchor Bol f) cs = Compiled r" using p(1) bol by simp
    moreover have "frame_no_eol (push_item Anchor Bol f)" using p(3) by (simp add: push_item_no_eol)
    ultimately show ?thesis using IH(6)[OF bol(1,2,3,4,5,6,7)] nd(2) p(4) by blast
  next
    case quant
    let ?lazy = "case snd f of (Repeated, r) # items \<Rightarrow> c \<noteq> CHR ''*'' | _ \<Rightarrow> False"
    let ?q = "quantify (if c = CHR ''+'' then 1 else 0) (if c = CHR ''?'' then Some 1 else None) f"
    have nl: "\<not> ?lazy"
    proof
      assume ?lazy
      then have "parse stack f (c # cs) = Unsupported" using quant nd(1) by simp
      then show False using p(1) by simp
    qed
    then have eq: "parse stack f (c # cs) =
        (case ?q of Compiled f' \<Rightarrow> parse stack f' cs | CompileError \<Rightarrow> CompileError
         | Overflow \<Rightarrow> Overflow | Unsupported \<Rightarrow> Unsupported)"
      using quant nd(1) by simp
    show ?thesis
    proof (cases ?q)
      case (Compiled f')
      then have "parse stack f' cs = Compiled r" using eq p(1) by simp
      moreover have "frame_no_eol f'" using quantify_no_eol[OF p(3) Compiled] .
      ultimately show ?thesis
        using IH(8)[OF quant(1,2,3,4,5,6,7) nd(1) quant(8) nl Compiled] nd(2) p(4) by blast
    next
      case CompileError
      then show ?thesis using eq p(1) by simp
    next
      case Overflow
      then show ?thesis using eq p(1) by simp
    next
      case Unsupported
      then show ?thesis using eq p(1) by simp
    qed
  next
    case brace
    show ?thesis
    proof (cases "brace_spec cs")
      case None
      then have "parse stack (push_item Plain (Lit c) f) cs = Compiled r" using p(1) brace by simp
      then show ?thesis
        using IH(9)[OF brace(1,2,3,4,5,6,7) nd(1) brace(8,9) None] lit nd(2) p(4) by blast
    next
      case (Some spec)
      obtain lo hi n where spec: "spec = (lo, hi, n)" by (cases spec)
      show ?thesis
      proof (cases "n = 1")
        case True
        then have "parse stack (push_item Plain (Lit c) f) cs = Compiled r"
          using p(1) brace Some spec by simp
        then show ?thesis
          using IH(10)[OF brace(1,2,3,4,5,6,7) nd(1) brace(8,9) Some spec[symmetric] refl True]
            lit nd(2) p(4) by blast
      next
        case False
        let ?q = "quantify (digits_value lo) (if hi = [] then None else Some (digits_value hi)) f"
        have c0: "\<not> (too_large lo \<or> too_large hi)"
          and c1: "\<not> (3 < length lo \<or> 3 < length hi)"
          and c2: "\<not> (hi \<noteq> [] \<and> digits_value hi < digits_value lo)"
          using p(1) brace Some spec False by (auto split: if_splits)
        then have eq: "parse stack f (c # cs) =
            (case ?q of Compiled f' \<Rightarrow> parse stack f' (drop n cs) | CompileError \<Rightarrow> CompileError
             | Overflow \<Rightarrow> Overflow | Unsupported \<Rightarrow> Unsupported)"
          using brace nd(1) Some spec False by auto
        show ?thesis
        proof (cases ?q)
          case (Compiled f')
          then have "parse stack f' (drop n cs) = Compiled r" using eq p(1) by simp
          moreover have "frame_no_eol f'" using quantify_no_eol[OF p(3) Compiled] .
          moreover have "CHR ''$'' \<notin> set (drop n cs)" using nd(2) by (meson in_set_dropD)
          ultimately show ?thesis
            using IH(11)[OF brace(1,2,3,4,5,6,7) nd(1) brace(8,9) Some spec[symmetric] refl False
                c0 c1 c2 Compiled] p(4) by blast
        next
          case CompileError
          then show ?thesis using eq p(1) by simp
        next
          case Overflow
          then show ?thesis using eq p(1) by simp
        next
          case Unsupported
          then show ?thesis using eq p(1) by simp
        qed
      qed
    qed
  next
    case other
    have "parse stack (push_item Plain (Lit c) f) cs = Compiled r" using p(1) other nd(1) by simp
    then show ?thesis
      using IH(12)[OF other(1,2,3,4,5,6,7) nd(1) other(8,9)] lit nd(2) p(4) by blast
  qed
qed

lemma py_compile_no_eol:
  "py_compile s = Compiled r \<Longrightarrow> CHR ''$'' \<notin> set s \<Longrightarrow> \<not> has_eol r"
  using parse_no_eol[of "[]" "([], [])" s r] by (simp add: py_compile_def frame_no_eol_def)

section \<open>Matching starts at the beginning of the line\<close>

lemma re_compile_py_re:
  "py_compile s = Compiled r \<Longrightarrow> re_compile (py_re other) s = Inr (py_rx_match r)"
  "py_compile s = CompileError \<Longrightarrow> re_compile (py_re other) s = Inl ReError"
  "py_compile s = Overflow \<Longrightarrow> re_compile (py_re other) s = Inl OverflowError"
  by (simp_all add: py_re_def)

lemma matches_py_re:
  "py_compile (regex p) = Compiled r \<Longrightarrow>
     matches (py_re other) p line = Inr (ends r (length line) line \<noteq> [])"
  by (simp add: matches_def re_match_def py_re_def py_rx_match_def)

lemma matches_py_re_prefix:
  assumes "py_compile (regex p) = Compiled r"
  shows "matches (py_re other) p line =
           Inr (\<exists>m v. line = m @ v \<and> v \<in> set (ends r (length line) line))"
proof -
  have "(ends r (length line) line \<noteq> []) = (\<exists>m v. line = m @ v \<and> v \<in> set (ends r (length line) line))"
  proof
    assume "ends r (length line) line \<noteq> []"
    then obtain v where v: "v \<in> set (ends r (length line) line)"
      by (cases "ends r (length line) line") auto
    then have "suffix v line" by (rule ends_suffix)
    then show "\<exists>m v. line = m @ v \<and> v \<in> set (ends r (length line) line)"
      using v by (auto simp: suffix_def)
  next
    assume "\<exists>m v. line = m @ v \<and> v \<in> set (ends r (length line) line)"
    then show "ends r (length line) line \<noteq> []" by auto
  qed
  then show ?thesis using assms by (simp add: matches_py_re)
qed

lemma matches_py_re_extend:
  assumes "py_compile (regex p) = Compiled r" and "CHR ''$'' \<notin> set (regex p)"
    and "matches (py_re other) p line = Inr True"
  shows "matches (py_re other) p (line @ extra) = Inr True"
proof -
  have ne: "\<not> has_eol r" using py_compile_no_eol[OF assms(1,2)] .
  have "py_rx_match r line" using assms(1,3) by (simp add: matches_py_re py_rx_match_def)
  then have "py_rx_match r (line @ extra)" using py_rx_match_extend[OF ne] by simp
  then show ?thesis using assms(1) by (simp add: matches_py_re py_rx_match_def)
qed

text \<open>
  Claim C3. With an engine that follows the model, \<open>matches\<close> holds exactly when the compiled
  regex matches a prefix \<open>m\<close> of the line, whatever text \<open>v\<close> follows it; and a regex without
  \<^verbatim>\<open>$\<close> that matches a line matches every extension of the line. The build regex without
  its trailing \<^verbatim>\<open>$\<close> accepts the build line with trailing text (with the \<^verbatim>\<open>$\<close> it does
  not); the userdel regex does not match the syslog line, whose prefix it does not cover,
  although it matches the line from its 21st character on. In the scenario the index is
  build 0, userdel 1 and the embedding of the two-line log is \<open>[0, 0]\<close>.
\<close>

theorem matches_from_line_start:
  "(\<forall>p line r. py_compile (regex p) = Compiled r \<longrightarrow>
       matches (py_re other) p line =
         Inr (\<exists>m v. line = m @ v \<and> v \<in> set (ends r (length line) line)))
   \<and> (\<forall>p line extra r. py_compile (regex p) = Compiled r \<and> CHR ''$'' \<notin> set (regex p) \<and>
         matches (py_re other) p line = Inr True \<longrightarrow>
         matches (py_re other) p (line @ extra) = Inr True)
   \<and> matches (py_re other) (build_pattern\<lparr>regex := build_regex_open\<rparr>) (build_line @ '' (cross)'')
        = Inr True
   \<and> matches (py_re other) build_pattern (build_line @ '' (cross)'') = Inr False
   \<and> matches (py_re other) build_pattern build_line = Inr True
   \<and> matches (py_re other) userdel_pattern syslog_line = Inr False
   \<and> matches (py_re other) userdel_pattern (drop 20 syslog_line) = Inr True
   \<and> utility_mapping (initialize_mappings [userdel_pattern, build_pattern])
        = [(''build'', 0), (''userdel'', 1)]
   \<and> generate_embedding (py_re other) (initialize_mappings [userdel_pattern, build_pattern])
        scenario_log
        = Inr [0, 0]"
proof -
  have g: "\<forall>p line r. py_compile (regex p) = Compiled r \<longrightarrow>
       matches (py_re other) p line =
         Inr (\<exists>m v. line = m @ v \<and> v \<in> set (ends r (length line) line))"
    using matches_py_re_prefix by blast
  have x: "\<forall>p line extra r. py_compile (regex p) = Compiled r \<and> CHR ''$'' \<notin> set (regex p) \<and>
         matches (py_re other) p line = Inr True \<longrightarrow>
         matches (py_re other) p (line @ extra) = Inr True"
    using matches_py_re_extend by blast
  have a: "matches (py_re other) (build_pattern\<lparr>regex := build_regex_open\<rparr>) (build_line @ '' (cross)'')
        = Inr True"
    by code_simp
  have b: "matches (py_re other) build_pattern (build_line @ '' (cross)'') = Inr False"
    by code_simp
  have c: "matches (py_re other) build_pattern build_line = Inr True"
    by code_simp
  have d: "matches (py_re other) userdel_pattern syslog_line = Inr False"
    by code_simp
  have e: "matches (py_re other) userdel_pattern (drop 20 syslog_line) = Inr True"
    by code_simp
  have f: "utility_mapping (initialize_mappings [userdel_pattern, build_pattern])
        = [(''build'', 0), (''userdel'', 1)]"
    by code_simp
  have h: "generate_embedding (py_re other) (initialize_mappings [userdel_pattern, build_pattern])
        scenario_log
        = Inr [0, 0]"
    by code_simp
  show ?thesis using g x a b c d e f h by (intro conjI)
qed

theorem matches_from_line_start_witness:
  "py_compile (regex (build_pattern\<lparr>regex := build_regex_open\<rparr>)) \<noteq> CompileError
   \<and> py_compile (regex (build_pattern\<lparr>regex := build_regex_open\<rparr>)) \<noteq> Overflow
   \<and> py_compile (regex (build_pattern\<lparr>regex := build_regex_open\<rparr>)) \<noteq> Unsupported
   \<and> CHR ''$'' \<notin> set (regex (build_pattern\<lparr>regex := build_regex_open\<rparr>))
   \<and> matches (py_re no_other) (build_pattern\<lparr>regex := build_regex_open\<rparr>) build_line = Inr True
   \<and> matches (py_re no_other) (build_pattern\<lparr>regex := build_regex_open\<rparr>) (build_line @ '' and more'')
        = Inr True
   \<and> matches (py_re no_other) (build_pattern\<lparr>regex := build_regex_open\<rparr>) (CHR ''x'' # build_line)
        = Inr False"
proof -
  let ?p = "build_pattern\<lparr>regex := build_regex_open\<rparr>"
  have c: "py_compile (regex ?p) \<noteq> CompileError \<and> py_compile (regex ?p) \<noteq> Overflow
             \<and> py_compile (regex ?p) \<noteq> Unsupported"
    by code_simp
  then obtain r where r: "py_compile (regex ?p) = Compiled r"
    by (cases "py_compile (regex ?p)") auto
  have nd: "CHR ''$'' \<notin> set (regex ?p)" by code_simp
  have m: "matches (py_re no_other) ?p build_line = Inr True" by code_simp
  have n: "matches (py_re no_other) ?p (CHR ''x'' # build_line) = Inr False" by code_simp
  have "matches (py_re no_other) ?p (build_line @ '' and more'') = Inr True"
    using matches_from_line_start[of no_other, THEN conjunct2, THEN conjunct1, rule_format,
            of ?p r build_line "'' and more''"] r nd m by simp
  then show ?thesis using c nd m n by simp
qed

section \<open>Invalid regexes\<close>

text \<open>
  Claim C4 says that a pattern whose regex does not compile is reported by a warning that
  names it. \<open>matches\<close> turns the compile error into \<open>False\<close> itself, so the handler of
  \<open>parse_line\<close> that prints the warning never runs (\<open>parse_line_silent\<close>): on the build line,
  a snapshot that starts with the regex \<^verbatim>\<open>(unclosed\<close> is classified by the next pattern and
  nothing is printed.
\<close>

theorem invalid_regex_warning_never_printed:
  "re_compile (py_re other) (regex unclosed_pattern) = Inl ReError
   \<and> matches (py_re other) unclosed_pattern build_line = Inr False
   \<and> parse_line (py_re other) build_line [unclosed_pattern, build_pattern]
        = Inr (Some build_pattern, [])"
proof -
  have "py_compile (regex unclosed_pattern) = CompileError" by code_simp
  then have a: "re_compile (py_re other) (regex unclosed_pattern) = Inl ReError"
    by (rule re_compile_py_re)
  have b: "matches (py_re other) unclosed_pattern build_line = Inr False" by code_simp
  have c: "parse_line (py_re other) build_line [unclosed_pattern, build_pattern]
        = Inr (Some build_pattern, [])" by code_simp
  show ?thesis using a b c by (intro conjI)
qed

text \<open>
  Claim C9 says that a proposal whose regex does not compile is never written to the
  store. In \<^verbatim>\<open>main\<close> of add\_pattern.py the answer 3 ("Cancel pattern creation") leaves the
  regex loop with the rejected regex still in the variable, and the round goes on to store
  it: from an empty store, the answers below end with the pattern \<^verbatim>\<open>(unclosed\<close> stored.
\<close>

theorem cancelled_invalid_regex_is_stored:
  "validate_regex (py_re other) ''(unclosed'' ''some line'' = Inr (False, [InvalidRegexMessage])
   \<and> main_iteration (py_re other) [] [''some line'', ''y'', ''(unclosed'', ''3'', ''tool'', ''n'']
       = Inr (Some ([\<lparr>pattern_id = 1, regex = ''(unclosed'', utility_name = ''tool'',
                       is_error = False, need_reviewing = True\<rparr>], []))"
  by code_simp

section \<open>Exceptions other than re.error\<close>

text \<open>
  A regex with a repeat count beyond the limit makes the library raise \<^verbatim>\<open>OverflowError\<close>,
  which only \<^verbatim>\<open>analyze_line_with_llm\<close> handles: the exception leaves \<open>matches\<close>,
  \<open>parse_line\<close>, the search of \<open>process_unprocessed_log\<close>, \<open>generate_embedding\<close> and
  \<open>validate_regex\<close>, while the oracle's proposal of such a regex is rejected with a message.
\<close>

lemma overflow_escapes:
  "matches (py_re other) overflow_pattern ''a'' = Inl OverflowError
   \<and> parse_line (py_re other) ''a'' [overflow_pattern, build_pattern] = Inl OverflowError
   \<and> find_matching (py_re other) ''a'' [overflow_pattern, build_pattern] = Inl OverflowError
   \<and> generate_embedding (py_re other) (initialize_mappings [overflow_pattern]) ''a''
        = Inl OverflowError
   \<and> validate_regex (py_re other) (regex overflow_pattern) ''a'' = Inl OverflowError
   \<and> analyze_line_with_llm (py_re other)
        (JSONObject (Some (regex overflow_pattern)) (Some ''tool'')) ''a''
        = Inr ([ErrorAnalyzingMessage], None)"
  by code_simp

end
